theory Spec2Isabelle
  imports Main "HOL-Library.Word"
begin

section \<open>The buffered Result of the QLDB Node.js driver (src/Result.ts)\<close>

subsection \<open>Data model\<close>

text \<open>
  The service type \<open>IonBinary\<close> is \<open>Buffer | Uint8Array | Blob | string\<close>. Each
  alternative is a constructor; the content is kept as it arrives.
\<close>

type_synonym byte = "8 word"

datatype ion_binary =
    Buffer "byte list"
  | Uint8Array "byte list"
  | Str string
  | Blob "byte list"

text \<open>
  A \<open>ValueHolder\<close> has an optional \<open>IonBinary\<close> slot, a \<open>Page\<close> an optional list
  of values and an optional continuation token, a \<open>FetchPageResult\<close> an optional page.
\<close>

record value_holder =
  IonBinary :: "ion_binary option"

record page =
  Values :: "value_holder list option"
  NextPageToken :: "string option"

record fetch_page_result =
  Page :: "page option"

text \<open>
  What the code can throw: the \<open>ClientException\<close> of \<open>_handleBlob\<close>, the
  \<open>TypeError\<close> of reading a property of \<open>undefined\<close>, whatever the Communicator's
  remote call raises, and whatever the decoder of the Ion library raises on a payload it
  cannot read; the last two pass through unmodified.
\<close>

datatype error =
    ClientException string
  | TypeError
  | ServiceError string
  | DecodeError string

subsection \<open>The Communicator and the store\<close>

text \<open>
  \<open>Communicator.fetchPage\<close> is a remote call: it is a parameter, a function of the
  transaction id, the token and the state of the service, answering with a result or an
  error and the next state of the service. The world records every call made through it,
  and holds the arrays that outlive the function that built them: an array is the index
  of its content in \<open>arrays\<close>, so \<open>length (arrays w)\<close> is the next fresh reference.
\<close>

type_synonym 'c communicator =
  "string \<Rightarrow> string \<Rightarrow> 'c \<Rightarrow> (error + fetch_page_result) \<times> 'c"

record ('c, 'r) world =
  service :: 'c
  calls :: "(string \<times> string) list"
  arrays :: "'r list list"

definition fetchPage ::
  "'c communicator \<Rightarrow> string \<Rightarrow> string \<Rightarrow> ('c, 'r) world
     \<Rightarrow> (error + fetch_page_result) \<times> ('c, 'r) world" where
  "fetchPage communicator txnId token w =
     (case communicator txnId token (service w) of
        (res, c') \<Rightarrow> (res, w\<lparr>service := c', calls := calls w @ [(txnId, token)]\<rparr>))"

subsection \<open>Result._handleBlob\<close>

definition handleBlob :: "ion_binary option \<Rightarrow> error + ion_binary" where
  "handleBlob ionBinary =
     (case ionBinary of
        Some (Buffer b) \<Rightarrow> Inr (Buffer b)
      | Some (Uint8Array b) \<Rightarrow> Inr (Uint8Array b)
      | Some (Str s) \<Rightarrow> Inr (Str s)
      | _ \<Rightarrow> Inl (ClientException ''Unexpected Blob returned from QLDB.''))"


subsection \<open>Result._fetchResultPages\<close>

text \<open>
  The two tests of the loop, with the truthiness of JavaScript: an absent token and the
  empty string are both falsy; an array is truthy, so \<open>Values && Values.length > 0\<close>
  holds of a present, non-empty list.
\<close>

definition hasNextPageToken :: "page \<Rightarrow> bool" where
  "hasNextPageToken p = (case NextPageToken p of None \<Rightarrow> False | Some t \<Rightarrow> t \<noteq> [])"

definition pushValues :: "page \<Rightarrow> value_holder list list \<Rightarrow> value_holder list list" where
  "pushValues currentPage pageValuesArray =
     (case Values currentPage of
        None \<Rightarrow> pageValuesArray
      | Some vs \<Rightarrow> if length vs > 0 then pageValuesArray @ [vs] else pageValuesArray)"

text \<open>
  The \<open>while (currentPage.NextPageToken)\<close> loop. It runs as long as the service keeps
  answering with pages that carry a token, so it is a partial function: \<open>None\<close> is the
  loop that never ends.
\<close>

partial_function (option) fetchLoop ::
  "'c communicator \<Rightarrow> string \<Rightarrow> page \<Rightarrow> value_holder list list \<Rightarrow> ('c, 'r) world
     \<Rightarrow> ((error + value_holder list list) \<times> ('c, 'r) world) option" where
  "fetchLoop communicator txnId currentPage pageValuesArray w =
     (case NextPageToken currentPage of
        None \<Rightarrow> Some (Inr pageValuesArray, w)
      | Some token \<Rightarrow>
          if token = [] then Some (Inr pageValuesArray, w)
          else
            (case fetchPage communicator txnId token w of
               (Inl e, w') \<Rightarrow> Some (Inl e, w')
             | (Inr fetchPageResult, w') \<Rightarrow>
                 (case Page fetchPageResult of
                    None \<Rightarrow> Some (Inl TypeError, w')
                  | Some p \<Rightarrow> fetchLoop communicator txnId p (pushValues p pageValuesArray) w')))"

text \<open>The first phase: the first page, then the loop.\<close>

definition collectPages ::
  "'c communicator \<Rightarrow> string \<Rightarrow> page \<Rightarrow> ('c, 'r) world
     \<Rightarrow> ((error + value_holder list list) \<times> ('c, 'r) world) option" where
  "collectPages communicator txnId page w =
     fetchLoop communicator txnId page (pushValues page []) w"

text \<open>
  The second phase: the nested \<open>forEach\<close>. \<open>makeReader\<close> is the decoder of the Ion
  library, a parameter: given a payload it answers with a Reader or throws. What is pushed
  for a value is \<open>makeReader(Result._handleBlob(valueHolder.IonBinary))\<close>; nothing
  catches what either call throws, so the first value that \<open>_handleBlob\<close> refuses or
  the decoder cannot read ends the loops with that error.
\<close>

definition decodeValue :: "(ion_binary \<Rightarrow> error + 'r) \<Rightarrow> value_holder \<Rightarrow> error + 'r" where
  "decodeValue makeReader valueHolder =
     (case handleBlob (IonBinary valueHolder) of
        Inl e \<Rightarrow> Inl e
      | Inr b \<Rightarrow> makeReader b)"

fun forEachValue ::
  "(ion_binary \<Rightarrow> error + 'r) \<Rightarrow> value_holder list \<Rightarrow> 'r list \<Rightarrow> error + 'r list" where
  "forEachValue makeReader [] readerList = Inr readerList"
| "forEachValue makeReader (valueHolder # rest) readerList =
     (case decodeValue makeReader valueHolder of
        Inl e \<Rightarrow> Inl e
      | Inr reader \<Rightarrow> forEachValue makeReader rest (readerList @ [reader]))"

fun forEachPage ::
  "(ion_binary \<Rightarrow> error + 'r) \<Rightarrow> value_holder list list \<Rightarrow> 'r list \<Rightarrow> error + 'r list" where
  "forEachPage makeReader [] readerList = Inr readerList"
| "forEachPage makeReader (valueHolders # rest) readerList =
     (case forEachValue makeReader valueHolders readerList of
        Inl e \<Rightarrow> Inl e
      | Inr readerList' \<Rightarrow> forEachPage makeReader rest readerList')"

definition fetchResultPages ::
  "'c communicator \<Rightarrow> (ion_binary \<Rightarrow> error + 'r) \<Rightarrow> string \<Rightarrow> page \<Rightarrow> ('c, 'r) world
     \<Rightarrow> ((error + 'r list) \<times> ('c, 'r) world) option" where
  "fetchResultPages communicator makeReader txnId page w =
     (case collectPages communicator txnId page w of
        None \<Rightarrow> None
      | Some (Inl e, w') \<Rightarrow> Some (Inl e, w')
      | Some (Inr pageValuesArray, w') \<Rightarrow> Some (forEachPage makeReader pageValuesArray [], w'))"

subsection \<open>The Result object\<close>

text \<open>
  A \<open>Result\<close> holds a reference to its private array. The constructor keeps the
  reference it is given; \<open>create\<close> hands it the array that \<open>_fetchResultPages\<close> built,
  which nothing else refers to. \<open>getResultList\<close> is \<open>slice()\<close>: a new array with the
  same elements.
\<close>

record result =
  resultList :: nat

definition newArray :: "'r list \<Rightarrow> ('c, 'r) world \<Rightarrow> nat \<times> ('c, 'r) world" where
  "newArray xs w = (length (arrays w), w\<lparr>arrays := arrays w @ [xs]\<rparr>)"

definition create ::
  "'c communicator \<Rightarrow> (ion_binary \<Rightarrow> error + 'r) \<Rightarrow> string \<Rightarrow> page \<Rightarrow> ('c, 'r) world
     \<Rightarrow> ((error + result) \<times> ('c, 'r) world) option" where
  "create communicator makeReader txnId page w =
     (case fetchResultPages communicator makeReader txnId page w of
        None \<Rightarrow> None
      | Some (Inl e, w') \<Rightarrow> Some (Inl e, w')
      | Some (Inr readerList, w') \<Rightarrow>
          (case newArray readerList w' of (a, w'') \<Rightarrow> Some (Inr \<lparr>resultList = a\<rparr>, w'')))"

definition getResultList :: "result \<Rightarrow> ('c, 'r) world \<Rightarrow> nat \<times> ('c, 'r) world" where
  "getResultList r w = newArray (arrays w ! resultList r) w"


subsection \<open>Result.bufferResultStream and the ResultStream it reads\<close>

text \<open>
  What a page holds, with an absent \<open>Values\<close> read as no value at all.
\<close>

definition pageValues :: "page \<Rightarrow> value_holder list" where
  "pageValues p = (case Values p of None \<Rightarrow> [] | Some vs \<Rightarrow> vs)"

text \<open>
  Modelled from the spec: the class ResultStream (src/ResultStream.ts) is not among the
  sources. The spec gives the streaming form as a cursor over remote pages holding the
  transaction id, the current page's in-memory values and a continuation token for the
  next page, absent when exhausted.
\<close>

record result_stream =
  streamTxnId :: string
  pending :: "value_holder list"
  continuation :: "string option"

text \<open>
  Modelled from the spec: what one turn of the ResultStream gives its listeners: a decoded
  value (\<open>data\<close>), the end of the sequence (\<open>end\<close>), a failure, or nothing yet, when
  the turn was spent fetching the next page.
\<close>

datatype 'r stream_event = Data 'r | Fetched | End | Failed error

text \<open>
  Modelled from the spec: \<open>asStream(transactionId, firstPage, communicator)\<close> starts the
  cursor on the first page.
\<close>

definition asStream :: "string \<Rightarrow> page \<Rightarrow> result_stream" where
  "asStream txnId firstPage =
     \<lparr>streamTxnId = txnId, pending = pageValues firstPage,
      continuation = NextPageToken firstPage\<rparr>"

text \<open>
  Modelled from the spec: the ResultStream "yields each value of the first page
  immediately, then on exhaustion issues exactly one fetch-page call per subsequent page,
  yielding its values, stopping when a page has no continuation token". A value is
  decoded as in the buffered loop, by \<open>_handleBlob\<close> and the decoder, and a token is
  tested as there, since the spec has both forms present one page-fetch algorithm.
\<close>

definition readStep ::
  "'c communicator \<Rightarrow> (ion_binary \<Rightarrow> error + 'r) \<Rightarrow> result_stream \<Rightarrow> ('c, 'r) world
     \<Rightarrow> 'r stream_event \<times> result_stream \<times> ('c, 'r) world" where
  "readStep communicator makeReader s w =
     (case pending s of
        valueHolder # rest \<Rightarrow>
          (case decodeValue makeReader valueHolder of
             Inl e \<Rightarrow> (Failed e, s, w)
           | Inr reader \<Rightarrow> (Data reader, s\<lparr>pending := rest\<rparr>, w))
      | [] \<Rightarrow>
          (case continuation s of
             None \<Rightarrow> (End, s, w)
           | Some token \<Rightarrow>
               if token = [] then (End, s, w)
               else
                 (case fetchPage communicator (streamTxnId s) token w of
                    (Inl e, w') \<Rightarrow> (Failed e, s, w')
                  | (Inr fetchPageResult, w') \<Rightarrow>
                      (case Page fetchPageResult of
                         None \<Rightarrow> (Failed TypeError, s, w')
                       | Some p \<Rightarrow>
                           (Fetched,
                            s\<lparr>pending := pageValues p, continuation := NextPageToken p\<rparr>,
                            w')))))"

text \<open>
  \<open>Result._readResultStream\<close>: a promise that pushes every \<open>data\<close> event on
  \<open>listOfReaders\<close> and resolves with the list at \<open>end\<close>. It listens to nothing else,
  so after a failure of the stream the promise is never resolved: \<open>None\<close>, as for a
  stream that never ends.
\<close>

partial_function (option) readResultStream ::
  "'c communicator \<Rightarrow> (ion_binary \<Rightarrow> error + 'r) \<Rightarrow> result_stream \<Rightarrow> 'r list \<Rightarrow> ('c, 'r) world
     \<Rightarrow> ('r list \<times> ('c, 'r) world) option" where
  "readResultStream communicator makeReader resultStream listOfReaders w =
     (case readStep communicator makeReader resultStream w of
        (Data reader, s', w') \<Rightarrow>
          readResultStream communicator makeReader s' (listOfReaders @ [reader]) w'
      | (Fetched, s', w') \<Rightarrow> readResultStream communicator makeReader s' listOfReaders w'
      | (End, s', w') \<Rightarrow> Some (listOfReaders, w')
      | (Failed e, s', w') \<Rightarrow> None)"

definition bufferResultStream ::
  "'c communicator \<Rightarrow> (ion_binary \<Rightarrow> error + 'r) \<Rightarrow> result_stream \<Rightarrow> ('c, 'r) world
     \<Rightarrow> (result \<times> ('c, 'r) world) option" where
  "bufferResultStream communicator makeReader resultStream w =
     (case readResultStream communicator makeReader resultStream [] w of
        None \<Rightarrow> None
      | Some (listOfReaders, w') \<Rightarrow>
          (case newArray listOfReaders w' of (a, w'') \<Rightarrow> Some (\<lparr>resultList = a\<rparr>, w'')))"

subsection \<open>The vocabulary of the properties\<close>

text \<open>
  A result set of pages \<open>p # ps\<close>: the service, from state \<open>c\<close>, answers the token of
  each page with the next page, and the last page is the first one without a token.
\<close>

fun pageChain :: "'c communicator \<Rightarrow> string \<Rightarrow> 'c \<Rightarrow> page \<Rightarrow> page list \<Rightarrow> bool" where
  "pageChain communicator txnId c p [] = (\<not> hasNextPageToken p)"
| "pageChain communicator txnId c p (q # qs) =
     (case NextPageToken p of
        None \<Rightarrow> False
      | Some t \<Rightarrow>
          t \<noteq> [] \<and>
          (case communicator txnId t c of
             (Inl e, c') \<Rightarrow> False
           | (Inr res, c') \<Rightarrow> Page res = Some q \<and> pageChain communicator txnId c' q qs))"

text \<open>The values of a chain in page order, and the calls that fetch with the tokens of pages.\<close>

definition chainValues :: "page list \<Rightarrow> value_holder list" where
  "chainValues ps = concat (map pageValues ps)"

definition tokenCalls :: "string \<Rightarrow> page list \<Rightarrow> (string \<times> string) list" where
  "tokenCalls txnId ps = map (\<lambda>p. (txnId, the (NextPageToken p))) ps"

text \<open>
  A value is decodable when its payload is accepted and the decoder reads it; its Reader
  is then what the decoder answered.
\<close>

definition decodable :: "(ion_binary \<Rightarrow> error + 'r) \<Rightarrow> value_holder \<Rightarrow> bool" where
  "decodable makeReader valueHolder =
     (case decodeValue makeReader valueHolder of Inl e \<Rightarrow> False | Inr reader \<Rightarrow> True)"

definition decoded :: "(ion_binary \<Rightarrow> error + 'r) \<Rightarrow> value_holder \<Rightarrow> 'r" where
  "decoded makeReader valueHolder = projr (decodeValue makeReader valueHolder)"

text \<open>
  The bytes that a payload presents: the octets of a buffer or of a typed array, and the
  bytes of a string (a \<open>string\<close> is a list of 8-bit characters, the encoded text). The
  decoder is an external library; that it decodes one document whatever the
  representation means that it reads these bytes and nothing else of an accepted payload.
\<close>

fun payloadBytes :: "ion_binary \<Rightarrow> byte list" where
  "payloadBytes (Buffer b) = b"
| "payloadBytes (Uint8Array b) = b"
| "payloadBytes (Str s) = map of_char s"
| "payloadBytes (Blob b) = b"



text \<open>A page whose absent \<open>Values\<close> is replaced by the empty list.\<close>

definition withEmptyValues :: "page \<Rightarrow> page" where
  "withEmptyValues p = (case Values p of None \<Rightarrow> p\<lparr>Values := Some []\<rparr> | Some vs \<Rightarrow> p)"

text \<open>
  What a caller can do with a Result: call \<open>getResultList\<close>, which adds the returned
  array to the references it holds, or change the content of an array it holds. The
  Result's own array is private and built inside \<open>create\<close>, so the caller holds no
  reference to it. \<open>Mutate k f\<close> replaces the content of the \<open>k\<close>-th held array by
  \<open>f\<close> of it; \<open>push\<close>, \<open>pop\<close> and the replacement of an element are such changes.
\<close>

datatype 'r caller_op = CallGetResultList | Mutate nat "'r list \<Rightarrow> 'r list"

definition push :: "'r \<Rightarrow> 'r list \<Rightarrow> 'r list" where
  "push v xs = xs @ [v]"

definition pop :: "'r list \<Rightarrow> 'r list" where
  "pop xs = butlast xs"

definition replaceAt :: "nat \<Rightarrow> 'r \<Rightarrow> 'r list \<Rightarrow> 'r list" where
  "replaceAt i v xs = xs[i := v]"

fun callerRuns ::
  "result \<Rightarrow> 'r caller_op list \<Rightarrow> nat list \<Rightarrow> ('c, 'r) world \<Rightarrow> nat list \<times> ('c, 'r) world" where
  "callerRuns r [] held w = (held, w)"
| "callerRuns r (CallGetResultList # ops) held w =
     (case getResultList r w of (a, w') \<Rightarrow> callerRuns r ops (held @ [a]) w')"
| "callerRuns r (Mutate k f # ops) held w =
     (if k < length held
      then callerRuns r ops held
             (w\<lparr>arrays := (arrays w)[held ! k := f (arrays w ! (held ! k))]\<rparr>)
      else callerRuns r ops held w)"


section \<open>The retry engine of the Driver\<close>

text \<open>
  Modelled from the spec: the Driver, the Session and the Transaction (src/PooledQldbDriver.ts,
  src/QldbSession.ts, src/Transaction.ts) are not among the sources. The kinds of error are
  the rows of the spec's error taxonomy; the last row, the local client fault, is split in
  the digest mismatch, which the spec has discard the session, and the other local faults,
  and \<open>Unrecognized\<close> is an error of the user's function that carries no recognised kind.
\<close>

datatype error_kind =
    OccConflict
  | InvalidSession
  | TransientFault
  | ResourceNotFound
  | InvalidParameter
  | ResourcePreconditionNotMet
  | DigestMismatch
  | LocalClientFault
  | Unrecognized

text \<open>Modelled from the spec: the column "Retryable" of the error taxonomy.\<close>

fun retryable :: "error_kind \<Rightarrow> bool" where
  "retryable OccConflict = True"
| "retryable InvalidSession = True"
| "retryable TransientFault = True"
| "retryable _ = False"

text \<open>
  Modelled from the spec: the column "Session disposition": an invalid session is
  discarded and replaced, a digest mismatch is unsafe and discards, every other kind
  keeps the session.
\<close>

fun discardsSession :: "error_kind \<Rightarrow> bool" where
  "discardsSession InvalidSession = True"
| "discardsSession DigestMismatch = True"
| "discardsSession _ = False"

text \<open>
  Modelled from the spec: what \<open>execute\<close> fails with: the classified error itself, or,
  when the retry budget is exhausted, the last classified error wrapped, its kind kept.
\<close>

datatype driver_error = Classified error_kind | RetriesExhausted error_kind

text \<open>
  Modelled from the spec: the remote calls and the steps of one \<open>execute\<close>, recorded in
  order. \<open>Invoke a t\<close> is the invocation of the function body on attempt \<open>a\<close> with the
  executor of transaction \<open>t\<close>.
\<close>

datatype driver_event =
    StartSession nat
  | StartTransaction nat string
  | Invoke nat string
  | Commit string
  | Abort string
  | Release nat
  | Discard nat
  | Backoff nat

text \<open>
  Modelled from the spec: the pool the Driver owns: the idle sessions, the number of live
  sessions and its configured maximum; with them the numbers of start-session and
  start-transaction calls made so far and the trace.
\<close>

record driver =
  idle :: "nat list"
  live :: nat
  maxSessions :: nat
  sessionsStarted :: nat
  transactionsStarted :: nat
  trace :: "driver_event list"

text \<open>Modelled from the spec: recording events.\<close>

definition emit :: "driver_event list \<Rightarrow> driver \<Rightarrow> driver" where
  "emit es d = d\<lparr>trace := trace d @ es\<rparr>"

text \<open>
  Modelled from the spec: step 1 of \<open>execute\<close>: "if an idle Session exists in the pool,
  take it; else if the pool is below its maximum size, create a new Session; else block
  until a Session is released". One \<open>execute\<close> is run alone here, so no other task
  releases a session and blocking is not returning: \<open>None\<close>.
\<close>

definition acquire :: "driver \<Rightarrow> (nat \<times> driver) option" where
  "acquire d =
     (case idle d of
        s # rest \<Rightarrow> Some (s, d\<lparr>idle := rest\<rparr>)
      | [] \<Rightarrow>
          if live d < maxSessions d
          then Some (sessionsStarted d,
                 emit [StartSession (sessionsStarted d)]
                   (d\<lparr>live := live d + 1, sessionsStarted := sessionsStarted d + 1\<rparr>))
          else None)"

text \<open>Modelled from the spec: "release the Session back to the idle set".\<close>

definition release :: "nat \<Rightarrow> driver \<Rightarrow> driver" where
  "release s d = emit [Release s] (d\<lparr>idle := idle d @ [s]\<rparr>)"

text \<open>Modelled from the spec: "discard the Session (do not return it to the pool)".\<close>

definition discard :: "nat \<Rightarrow> driver \<Rightarrow> driver" where
  "discard s d = emit [Discard s] (d\<lparr>live := live d - 1\<rparr>)"

text \<open>
  Modelled from the spec: \<open>Session.runTransaction(fn)\<close>: "starts a transaction,
  constructs a TransactionExecutor bound to it, invokes \<open>fn(executor)\<close>. If \<open>fn\<close>
  succeeds, commits and returns \<open>fn\<close>'s result. If \<open>fn\<close> fails, aborts (best-effort)
  and rethrows the original error"; abort also follows a failed commit. The service
  assigns the transaction id: \<open>txnIds n\<close> is the id that its \<open>n\<close>-th start-transaction
  call returns, and \<open>commit t\<close> is the failure of committing \<open>t\<close>, if any. The user's
  function is given by its outcome on each attempt and transaction.
\<close>

definition runTransaction ::
  "(nat \<Rightarrow> string) \<Rightarrow> (string \<Rightarrow> error_kind option) \<Rightarrow> (nat \<Rightarrow> string \<Rightarrow> error_kind + 'a)
     \<Rightarrow> nat \<Rightarrow> nat \<Rightarrow> driver \<Rightarrow> (error_kind + 'a) \<times> driver" where
  "runTransaction txnIds commit fn attempt s d =
     (let t = txnIds (transactionsStarted d);
          d1 = emit [StartTransaction s t, Invoke attempt t]
                 (d\<lparr>transactionsStarted := transactionsStarted d + 1\<rparr>)
      in case fn attempt t of
           Inl k \<Rightarrow> (Inl k, emit [Abort t] d1)
         | Inr v \<Rightarrow>
             (case commit t of
                None \<Rightarrow> (Inr v, emit [Commit t] d1)
              | Some k \<Rightarrow> (Inl k, emit [Commit t, Abort t] d1)))"

text \<open>
  Modelled from the spec: steps 1 to 5 of \<open>Driver.execute\<close>, from attempt \<open>attempt\<close> on:
  acquire a session, run the transaction, on success release the session and return; on
  failure dispose of the session by the kind of the error, propagate a non-retryable
  error at once, retry a retryable one after the backoff while attempts remain, and
  otherwise surface it as retries-exhausted.
\<close>

function executeFrom ::
  "(nat \<Rightarrow> string) \<Rightarrow> (string \<Rightarrow> error_kind option) \<Rightarrow> (nat \<Rightarrow> string \<Rightarrow> error_kind + 'a)
     \<Rightarrow> nat \<Rightarrow> nat \<Rightarrow> driver \<Rightarrow> ((driver_error + 'a) \<times> driver) option" where
  "executeFrom txnIds commit fn maxAttempts attempt d =
     (case acquire d of
        None \<Rightarrow> None
      | Some (s, d1) \<Rightarrow>
          (case runTransaction txnIds commit fn attempt s d1 of
             (Inr v, d2) \<Rightarrow> Some (Inr v, release s d2)
           | (Inl k, d2) \<Rightarrow>
               (let d3 = (if discardsSession k then discard s d2 else release s d2)
                in if \<not> retryable k then Some (Inl (Classified k), d3)
                   else if attempt < maxAttempts
                   then executeFrom txnIds commit fn maxAttempts (Suc attempt)
                          (emit [Backoff attempt] d3)
                   else Some (Inl (RetriesExhausted k), d3))))"
  by pat_completeness auto
termination
  by (relation "measure (\<lambda>(txnIds, commit, fn, maxAttempts, attempt, d). maxAttempts - attempt)")
     auto

declare executeFrom.simps [simp del]

text \<open>Modelled from the spec: \<open>Driver.execute\<close>, whose first attempt is attempt 1.\<close>

definition execute ::
  "(nat \<Rightarrow> string) \<Rightarrow> (string \<Rightarrow> error_kind option) \<Rightarrow> (nat \<Rightarrow> string \<Rightarrow> error_kind + 'a)
     \<Rightarrow> nat \<Rightarrow> driver \<Rightarrow> ((driver_error + 'a) \<times> driver) option" where
  "execute txnIds commit fn maxAttempts d = executeFrom txnIds commit fn maxAttempts 1 d"

text \<open>
  The invocations of the function body in a trace; the invocations of \<open>j\<close> attempts in
  a row from attempt \<open>a\<close>, the first in the \<open>c\<close>-th transaction of the service; and a
  pool with no session checked out and room for one.
\<close>

fun invocations :: "driver_event list \<Rightarrow> (nat \<times> string) list" where
  "invocations [] = []"
| "invocations (Invoke a t # es) = (a, t) # invocations es"
| "invocations (e # es) = invocations es"

definition attemptsFrom :: "(nat \<Rightarrow> string) \<Rightarrow> nat \<Rightarrow> nat \<Rightarrow> nat \<Rightarrow> (nat \<times> string) list" where
  "attemptsFrom txnIds a c j = map (\<lambda>i. (a + i, txnIds (c + i))) [0..<j]"

definition poolAtRest :: "driver \<Rightarrow> bool" where
  "poolAtRest d = (live d = length (idle d) \<and> live d \<le> maxSessions d \<and> 0 < maxSessions d)"

section \<open>Example data\<close>

text \<open>
  A result set of four pages, the second with no value and the third with no \<open>Values\<close>
  at all; a page whose only payload is a \<open>Blob\<close>; a service that answers the three
  tokens, and the same service with every absent \<open>Values\<close> made the empty list.
\<close>

definition pageA :: page where
  "pageA = \<lparr>Values = Some [\<lparr>IonBinary = Some (Buffer [1, 2])\<rparr>, \<lparr>IonBinary = Some (Str ''a'')\<rparr>],
            NextPageToken = Some ''t1''\<rparr>"

definition pageB :: page where
  "pageB = \<lparr>Values = Some [], NextPageToken = Some ''t2''\<rparr>"

definition pageC :: page where
  "pageC = \<lparr>Values = None, NextPageToken = Some ''t3''\<rparr>"

definition pageD :: page where
  "pageD = \<lparr>Values = Some [\<lparr>IonBinary = Some (Uint8Array [3])\<rparr>], NextPageToken = None\<rparr>"

definition pageE :: page where
  "pageE = \<lparr>Values = Some [\<lparr>IonBinary = Some (Blob [4])\<rparr>], NextPageToken = None\<rparr>"

definition demoCommunicator :: "unit communicator" where
  "demoCommunicator txnId token c =
     (if token = ''t1'' then (Inr \<lparr>Page = Some pageB\<rparr>, c)
      else if token = ''t2'' then (Inr \<lparr>Page = Some pageC\<rparr>, c)
      else if token = ''t3'' then (Inr \<lparr>Page = Some pageD\<rparr>, c)
      else (Inl (ServiceError ''unknown token''), c))"

definition emptiedCommunicator :: "unit communicator" where
  "emptiedCommunicator txnId token c =
     (case demoCommunicator txnId token c of
        (Inl e, c') \<Rightarrow> (Inl e, c')
      | (Inr res, c') \<Rightarrow> (Inr \<lparr>Page = map_option withEmptyValues (Page res)\<rparr>, c'))"

definition demoWorld :: "(unit, ion_binary) world" where
  "demoWorld = \<lparr>service = (), calls = [], arrays = []\<rparr>"

text \<open>
  A decoder whose Reader is the bytes it read and which cannot read the byte 200; a world
  for its Readers; a page whose only payload is that byte in a buffer; and two pages of
  one document three times, in the three representations in two orders.
\<close>

definition demoReader :: "ion_binary \<Rightarrow> error + byte list" where
  "demoReader b =
     (if payloadBytes b = [200] then Inl (DecodeError ''invalid UTF-8'')
      else Inr (payloadBytes b))"

definition readerWorld :: "(unit, byte list) world" where
  "readerWorld = \<lparr>service = (), calls = [], arrays = []\<rparr>"

definition pageF :: page where
  "pageF = \<lparr>Values = Some [\<lparr>IonBinary = Some (Buffer [200])\<rparr>], NextPageToken = None\<rparr>"



text \<open>
  A world that already holds one array, the Result that \<open>create\<close> builds there from
  the four pages, and a caller that holds the old array, reads the Result twice and
  changes every array it holds.
\<close>

definition busyWorld :: "(unit, ion_binary) world" where
  "busyWorld = \<lparr>service = (), calls = [], arrays = [[Str ''z'']]\<rparr>"

definition createdResult :: result where
  "createdResult = \<lparr>resultList = 1\<rparr>"

definition createdWorld :: "(unit, ion_binary) world" where
  "createdWorld =
     \<lparr>service = (), calls = [(''txn'', ''t1''), (''txn'', ''t2''), (''txn'', ''t3'')],
      arrays = [[Str ''z''], [Buffer [1, 2], Str ''a'', Uint8Array [3]]]\<rparr>"

definition demoOps :: "ion_binary caller_op list" where
  "demoOps = [Mutate 0 (push (Str ''c'')), CallGetResultList, Mutate 1 (replaceAt 0 (Blob [])),
              Mutate 1 pop, CallGetResultList, Mutate 2 pop, Mutate 2 pop, Mutate 2 pop,
              Mutate 2 pop]"

text \<open>
  A driver with an empty pool of capacity one, a service whose \<open>n\<close>-th transaction id is
  \<open>n + 1\<close> letters long and whose commits succeed, a function that meets an OCC conflict
  twice and then returns 42, and one whose session is invalid on every attempt.
\<close>

definition demoDriver :: driver where
  "demoDriver = \<lparr>idle = [], live = 0, maxSessions = 1, sessionsStarted = 0,
                 transactionsStarted = 0, trace = []\<rparr>"

definition demoTxnIds :: "nat \<Rightarrow> string" where
  "demoTxnIds k = replicate (Suc k) CHR ''t''"

definition demoCommit :: "string \<Rightarrow> error_kind option" where
  "demoCommit t = None"

definition occTwice :: "nat \<Rightarrow> string \<Rightarrow> error_kind + nat" where
  "occTwice attempt t = (if attempt < 3 then Inl OccConflict else Inr 42)"

definition alwaysInvalidSession :: "nat \<Rightarrow> string \<Rightarrow> error_kind + nat" where
  "alwaysInvalidSession attempt t = Inl InvalidSession"

section \<open>Lemmas\<close>

subsection \<open>The page loop on a result set\<close>

lemma pushValues_eq:
  "pushValues p acc = acc @ filter (\<lambda>vs. vs \<noteq> []) [pageValues p]"
  by (simp add: pushValues_def pageValues_def split: option.splits)

lemma fetchLoop_chain:
  "pageChain communicator txnId (service w) p ps \<Longrightarrow>
   \<exists>w'. fetchLoop communicator txnId p acc w =
           Some (Inr (acc @ filter (\<lambda>vs. vs \<noteq> []) (map pageValues ps)), w')
       \<and> calls w' = calls w @ tokenCalls txnId (butlast (p # ps))
       \<and> arrays w' = arrays w"
proof (induction ps arbitrary: p acc w)
  case Nil
  then show ?case
    by (subst fetchLoop.simps) (simp add: hasNextPageToken_def tokenCalls_def split: option.splits)
next
  case (Cons q qs)
  from Cons.prems obtain t res c' where
    t: "NextPageToken p = Some t" "t \<noteq> []"
    and c: "communicator txnId t (service w) = (Inr res, c')"
    and q: "Page res = Some q"
    and ch: "pageChain communicator txnId c' q qs"
    by (auto split: option.splits prod.splits sum.splits)
  define w1 where "w1 = w\<lparr>service := c', calls := calls w @ [(txnId, t)]\<rparr>"
  have fp: "fetchPage communicator txnId t w = (Inr res, w1)"
    by (simp add: fetchPage_def c w1_def)
  have "pageChain communicator txnId (service w1) q qs"
    using ch by (simp add: w1_def)
  from Cons.IH [OF this, of "pushValues q acc"] obtain w' where
    l: "fetchLoop communicator txnId q (pushValues q acc) w1 =
          Some (Inr (pushValues q acc @ filter (\<lambda>vs. vs \<noteq> []) (map pageValues qs)), w')"
    and k: "calls w' = calls w1 @ tokenCalls txnId (butlast (q # qs))"
    and a: "arrays w' = arrays w1"
    by blast
  have "fetchLoop communicator txnId p acc w =
          Some (Inr (acc @ filter (\<lambda>vs. vs \<noteq> []) (map pageValues (q # qs))), w')"
    using l by (subst fetchLoop.simps) (simp add: t fp q pushValues_eq)
  moreover have "calls w' = calls w @ tokenCalls txnId (butlast (p # q # qs))"
    using k by (simp add: w1_def tokenCalls_def t)
  moreover have "arrays w' = arrays w"
    using a by (simp add: w1_def)
  ultimately show ?case by blast
qed

lemma collectPages_chain:
  assumes "pageChain communicator txnId (service w) p ps"
  shows "\<exists>w'. collectPages communicator txnId p w =
            Some (Inr (filter (\<lambda>vs. vs \<noteq> []) (map pageValues (p # ps))), w')
        \<and> calls w' = calls w @ tokenCalls txnId (butlast (p # ps))
        \<and> arrays w' = arrays w"
proof -
  from fetchLoop_chain [OF assms, of "pushValues p []"] obtain w' where
    "fetchLoop communicator txnId p (pushValues p []) w =
       Some (Inr (pushValues p [] @ filter (\<lambda>vs. vs \<noteq> []) (map pageValues ps)), w')"
    "calls w' = calls w @ tokenCalls txnId (butlast (p # ps))" "arrays w' = arrays w"
    by blast
  then show ?thesis
    by (simp add: collectPages_def pushValues_eq)
qed

lemma concat_nonempty: "concat (filter (\<lambda>vs. vs \<noteq> []) xss) = concat xss"
  by (induction xss) simp_all

lemma pageChain_tokens:
  "pageChain communicator txnId c p ps \<Longrightarrow>
   (\<forall>q \<in> set (butlast (p # ps)). hasNextPageToken q) \<and> \<not> hasNextPageToken (last (p # ps))"
proof (induction ps arbitrary: p c)
  case Nil
  then show ?case by simp
next
  case (Cons q qs)
  from Cons.prems obtain c' where
    "hasNextPageToken p" "pageChain communicator txnId c' q qs"
    by (auto simp: hasNextPageToken_def split: option.splits prod.splits sum.splits)
  with Cons.IH [of c' q] show ?case by simp
qed

lemma filter_skip_nth:
  assumes "i < length xs" and "f (xs ! i) = []"
  shows "filter (\<lambda>vs. vs \<noteq> []) (map f xs) =
         filter (\<lambda>vs. vs \<noteq> []) (map f (take i xs @ drop (Suc i) xs))"
proof -
  have "xs = take i xs @ xs ! i # drop (Suc i) xs"
    using assms(1) by (rule id_take_nth_drop)
  then have "map f xs = map f (take i xs) @ f (xs ! i) # map f (drop (Suc i) xs)"
    by (metis list.simps(9) map_append)
  then show ?thesis using assms(2) by simp
qed

subsection \<open>Decoding\<close>




lemma decodable_decodeValue:
  "decodable makeReader v \<Longrightarrow> decodeValue makeReader v = Inr (decoded makeReader v)"
  by (simp add: decodable_def decoded_def split: sum.splits)



lemma forEachValue_ok:
  "\<forall>v \<in> set vs. decodable makeReader v \<Longrightarrow>
   forEachValue makeReader vs rl = Inr (rl @ map (decoded makeReader) vs)"
  by (induction vs arbitrary: rl) (simp_all add: decodable_decodeValue)



lemma forEachValue_append:
  "forEachValue makeReader (xs @ ys) rl =
     (case forEachValue makeReader xs rl of
        Inl e \<Rightarrow> Inl e
      | Inr rl' \<Rightarrow> forEachValue makeReader ys rl')"
  by (induction xs arbitrary: rl) (simp_all split: sum.splits)

lemma forEachPage_concat:
  "forEachPage makeReader pva rl = forEachValue makeReader (concat pva) rl"
  by (induction pva arbitrary: rl) (simp_all add: forEachValue_append split: sum.splits)



lemma fetchResultPages_chain:
  assumes "pageChain communicator txnId (service w) p ps"
  shows "\<exists>w'. fetchResultPages communicator makeReader txnId p w =
            Some (forEachPage makeReader (filter (\<lambda>vs. vs \<noteq> []) (map pageValues (p # ps))) [], w')
        \<and> calls w' = calls w @ tokenCalls txnId (butlast (p # ps))
        \<and> arrays w' = arrays w"
proof -
  from collectPages_chain [OF assms] obtain w' where
    "collectPages communicator txnId p w =
            Some (Inr (filter (\<lambda>vs. vs \<noteq> []) (map pageValues (p # ps))), w')"
    "calls w' = calls w @ tokenCalls txnId (butlast (p # ps))" "arrays w' = arrays w"
    by blast
  then show ?thesis
    by (simp add: fetchResultPages_def)
qed

lemma fetchResultPages_values:
  assumes "pageChain communicator txnId (service w) p ps"
  shows "\<exists>w'. fetchResultPages communicator makeReader txnId p w =
            Some (forEachValue makeReader (chainValues (p # ps)) [], w')
        \<and> calls w' = calls w @ tokenCalls txnId (butlast (p # ps))
        \<and> arrays w' = arrays w"
proof -
  have e: "forEachPage makeReader (filter (\<lambda>vs. vs \<noteq> []) (map pageValues (p # ps))) [] =
           forEachValue makeReader (chainValues (p # ps)) []"
    unfolding forEachPage_concat concat_nonempty chainValues_def ..
  show ?thesis
    using fetchResultPages_chain [OF assms, of makeReader] unfolding e .
qed

subsection \<open>Pages without a list of values\<close>

lemma pageValues_withEmptyValues: "pageValues (withEmptyValues p) = pageValues p"
  by (simp add: withEmptyValues_def pageValues_def split: option.splits)

lemma NextPageToken_withEmptyValues: "NextPageToken (withEmptyValues p) = NextPageToken p"
  by (simp add: withEmptyValues_def split: option.splits)

lemma tokenCalls_withEmptyValues:
  "tokenCalls txnId (map withEmptyValues ps) = tokenCalls txnId ps"
  by (simp add: tokenCalls_def NextPageToken_withEmptyValues)

subsection \<open>Reading the stream\<close>

lemma readResultStream_pending:
  assumes "\<forall>v \<in> set vs. decodable makeReader v"
  shows "readResultStream communicator makeReader (s\<lparr>pending := vs\<rparr>) acc w =
         readResultStream communicator makeReader (s\<lparr>pending := []\<rparr>)
           (acc @ map (decoded makeReader) vs) w"
  using assms
proof (induction vs arbitrary: acc)
  case Nil
  then show ?case by simp
next
  case (Cons v vs)
  have "readResultStream communicator makeReader (s\<lparr>pending := v # vs\<rparr>) acc w =
        readResultStream communicator makeReader (s\<lparr>pending := vs\<rparr>)
          (acc @ [decoded makeReader v]) w"
    using Cons.prems
    by (subst readResultStream.simps)
       (simp add: readStep_def decodable_decodeValue)
  then show ?case using Cons by simp
qed

lemma readResultStream_chain:
  assumes "pageChain communicator txnId (service w) p ps"
    and "\<forall>v \<in> set (chainValues ps). decodable makeReader v"
  shows "\<exists>w'. readResultStream communicator makeReader
                \<lparr>streamTxnId = txnId, pending = [], continuation = NextPageToken p\<rparr> acc w =
              Some (acc @ map (decoded makeReader) (chainValues ps), w')
          \<and> calls w' = calls w @ tokenCalls txnId (butlast (p # ps))
          \<and> arrays w' = arrays w"
  using assms
proof (induction ps arbitrary: p acc w)
  case Nil
  then show ?case
    by (subst readResultStream.simps)
       (simp add: readStep_def hasNextPageToken_def tokenCalls_def chainValues_def
             split: option.splits)
next
  case (Cons q qs)
  from Cons.prems(1) obtain t res c' where
    t: "NextPageToken p = Some t" "t \<noteq> []"
    and c: "communicator txnId t (service w) = (Inr res, c')"
    and q: "Page res = Some q"
    and ch: "pageChain communicator txnId c' q qs"
    by (auto split: option.splits prod.splits sum.splits)
  define w1 where "w1 = w\<lparr>service := c', calls := calls w @ [(txnId, t)]\<rparr>"
  have fp: "fetchPage communicator txnId t w = (Inr res, w1)"
    by (simp add: fetchPage_def c w1_def)
  have ch1: "pageChain communicator txnId (service w1) q qs"
    using ch by (simp add: w1_def)
  have bq: "\<forall>v \<in> set (pageValues q). decodable makeReader v"
    and bqs: "\<forall>v \<in> set (chainValues qs). decodable makeReader v"
    using Cons.prems(2) by (simp_all add: chainValues_def)
  let ?s = "\<lparr>streamTxnId = txnId, pending = [], continuation = NextPageToken q\<rparr>"
  from Cons.IH [OF ch1 bqs, where acc = "acc @ map (decoded makeReader) (pageValues q)"]
  obtain w' where
    l: "readResultStream communicator makeReader ?s
          (acc @ map (decoded makeReader) (pageValues q)) w1 =
        Some ((acc @ map (decoded makeReader) (pageValues q))
                @ map (decoded makeReader) (chainValues qs), w')"
    and k: "calls w' = calls w1 @ tokenCalls txnId (butlast (q # qs))"
    and a: "arrays w' = arrays w1"
    by blast
  have s1: "readResultStream communicator makeReader
              \<lparr>streamTxnId = txnId, pending = [], continuation = NextPageToken p\<rparr> acc w =
            readResultStream communicator makeReader (?s\<lparr>pending := pageValues q\<rparr>) acc w1"
    by (subst readResultStream.simps) (simp add: readStep_def t fp q)
  have s2: "readResultStream communicator makeReader (?s\<lparr>pending := pageValues q\<rparr>) acc w1 =
            readResultStream communicator makeReader (?s\<lparr>pending := []\<rparr>)
              (acc @ map (decoded makeReader) (pageValues q)) w1"
    by (rule readResultStream_pending [OF bq])
  have "readResultStream communicator makeReader
              \<lparr>streamTxnId = txnId, pending = [], continuation = NextPageToken p\<rparr> acc w =
        readResultStream communicator makeReader (?s\<lparr>pending := pageValues q\<rparr>) acc w1"
    by (rule s1)
  also have "\<dots> = readResultStream communicator makeReader (?s\<lparr>pending := []\<rparr>)
              (acc @ map (decoded makeReader) (pageValues q)) w1"
    by (rule s2)
  also have "\<dots> = Some (acc @ map (decoded makeReader) (chainValues (q # qs)), w')"
    using l by (simp add: chainValues_def)
  finally have "readResultStream communicator makeReader
              \<lparr>streamTxnId = txnId, pending = [], continuation = NextPageToken p\<rparr> acc w =
        Some (acc @ map (decoded makeReader) (chainValues (q # qs)), w')" .
  moreover have "calls w' = calls w @ tokenCalls txnId (butlast (p # q # qs))"
    using k by (simp add: w1_def tokenCalls_def t)
  moreover have "arrays w' = arrays w"
    using a by (simp add: w1_def)
  ultimately show ?case by blast
qed

lemma bufferResultStream_chain:
  assumes "pageChain communicator txnId (service w) p ps"
    and "\<forall>v \<in> set (chainValues (p # ps)). decodable makeReader v"
  shows "\<exists>r w'. bufferResultStream communicator makeReader (asStream txnId p) w = Some (r, w')
          \<and> arrays w' ! resultList r = map (decoded makeReader) (chainValues (p # ps))
          \<and> calls w' = calls w @ tokenCalls txnId (butlast (p # ps))"
proof -
  have bp: "\<forall>v \<in> set (pageValues p). decodable makeReader v"
    and bps: "\<forall>v \<in> set (chainValues ps). decodable makeReader v"
    using assms(2) by (simp_all add: chainValues_def)
  let ?s = "\<lparr>streamTxnId = txnId, pending = [], continuation = NextPageToken p\<rparr>"
  have s0: "asStream txnId p = ?s\<lparr>pending := pageValues p\<rparr>"
    by (simp add: asStream_def)
  from readResultStream_chain [OF assms(1) bps, where acc = "map (decoded makeReader) (pageValues p)"]
  obtain w' where
    l: "readResultStream communicator makeReader ?s (map (decoded makeReader) (pageValues p)) w =
          Some (map (decoded makeReader) (pageValues p) @ map (decoded makeReader) (chainValues ps), w')"
    and k: "calls w' = calls w @ tokenCalls txnId (butlast (p # ps))"
    by blast
  have "readResultStream communicator makeReader (asStream txnId p) [] w =
          readResultStream communicator makeReader (?s\<lparr>pending := pageValues p\<rparr>) [] w"
    by (simp only: s0)
  also have "\<dots> = readResultStream communicator makeReader (?s\<lparr>pending := []\<rparr>)
              ([] @ map (decoded makeReader) (pageValues p)) w"
    by (rule readResultStream_pending [OF bp])
  also have "\<dots> = Some (map (decoded makeReader) (chainValues (p # ps)), w')"
    using l by (simp add: chainValues_def)
  finally have "readResultStream communicator makeReader (asStream txnId p) [] w =
          Some (map (decoded makeReader) (chainValues (p # ps)), w')" .
  then show ?thesis
    using k by (simp add: bufferResultStream_def newArray_def)
qed

subsection \<open>The caller and the store\<close>

lemma callerRuns_frame:
  assumes "resultList r < length (arrays w)"
    and "\<forall>a \<in> set held. a < length (arrays w) \<and> a \<noteq> resultList r"
  shows "case callerRuns r ops held w of (held', w') \<Rightarrow>
           calls w' = calls w \<and> service w' = service w
         \<and> length (arrays w) \<le> length (arrays w')
         \<and> arrays w' ! resultList r = arrays w ! resultList r
         \<and> (\<forall>a \<in> set held'. a < length (arrays w') \<and> a \<noteq> resultList r)"
  using assms
proof (induction ops arbitrary: held w)
  case Nil
  then show ?case by simp
next
  case (Cons op ops)
  show ?case
  proof (cases op)
    case CallGetResultList
    define w1 where "w1 = w\<lparr>arrays := arrays w @ [arrays w ! resultList r]\<rparr>"
    have g: "getResultList r w = (length (arrays w), w1)"
      by (simp add: getResultList_def newArray_def w1_def)
    have 1: "resultList r < length (arrays w1)"
      using Cons.prems(1) by (simp add: w1_def)
    have 2: "\<forall>a \<in> set (held @ [length (arrays w)]). a < length (arrays w1) \<and> a \<noteq> resultList r"
      using Cons.prems by (auto simp: w1_def)
    have 3: "arrays w1 ! resultList r = arrays w ! resultList r"
      using Cons.prems(1) by (simp add: w1_def nth_append)
    from Cons.IH [OF 1 2] show ?thesis
      using 3 by (auto simp: CallGetResultList g w1_def split: prod.splits)
  next
    case (Mutate k f)
    show ?thesis
    proof (cases "k < length held")
      case True
      define w1 where "w1 = w\<lparr>arrays := (arrays w)[held ! k := f (arrays w ! (held ! k))]\<rparr>"
      have n: "held ! k \<noteq> resultList r"
        using Cons.prems(2) True by (metis nth_mem)
      have 1: "resultList r < length (arrays w1)"
        using Cons.prems(1) by (simp add: w1_def)
      have 2: "\<forall>a \<in> set held. a < length (arrays w1) \<and> a \<noteq> resultList r"
        using Cons.prems(2) by (simp add: w1_def)
      have 3: "arrays w1 ! resultList r = arrays w ! resultList r"
        using n by (simp add: w1_def)
      from Cons.IH [OF 1 2] show ?thesis
        using 3 True by (auto simp: Mutate w1_def split: prod.splits)
    next
      case False
      from Cons.IH [OF Cons.prems] show ?thesis
        using False by (simp add: Mutate)
    qed
  qed
qed

lemma create_allocates:
  assumes "create communicator makeReader txnId p w0 = Some (Inr r, w)"
  shows "resultList r < length (arrays w)"
  using assms
  by (auto simp: create_def newArray_def split: option.splits prod.splits sum.splits)

subsection \<open>Attempts of the retry engine\<close>

lemma invocations_append: "invocations (xs @ ys) = invocations xs @ invocations ys"
  by (induction xs rule: invocations.induct) simp_all

lemma poolAtRest_emit: "poolAtRest (emit es d) = poolAtRest d"
  by (simp add: poolAtRest_def emit_def)

lemma failed_attempt:
  assumes "poolAtRest d"
    and "fn a (txnIds (transactionsStarted d)) = Inl k"
    and "retryable k"
  shows "\<exists>d3. poolAtRest d3
           \<and> transactionsStarted d3 = Suc (transactionsStarted d)
           \<and> invocations (trace d3) = invocations (trace d) @ [(a, txnIds (transactionsStarted d))]
           \<and> executeFrom txnIds commit fn M a d =
               (if a < M then executeFrom txnIds commit fn M (Suc a) (emit [Backoff a] d3)
                else Some (Inl (RetriesExhausted k), d3))"
proof (cases "idle d")
  case Nil
  define d1 where "d1 = emit [StartSession (sessionsStarted d)]
                   (d\<lparr>live := live d + 1, sessionsStarted := sessionsStarted d + 1\<rparr>)"
  define t where "t = txnIds (transactionsStarted d)"
  define d2 where "d2 = emit [Abort t] (emit [StartTransaction (sessionsStarted d) t, Invoke a t]
                 (d1\<lparr>transactionsStarted := transactionsStarted d1 + 1\<rparr>))"
  define d3 where "d3 = (if discardsSession k then discard (sessionsStarted d) d2
                         else release (sessionsStarted d) d2)"
  have acq: "acquire d = Some (sessionsStarted d, d1)"
    using assms(1) Nil by (simp add: acquire_def poolAtRest_def d1_def)
  have run: "runTransaction txnIds commit fn a (sessionsStarted d) d1 = (Inl k, d2)"
    using assms(2) by (simp add: runTransaction_def d1_def d2_def t_def emit_def Let_def)
  have "poolAtRest d3"
    using assms(1) Nil
    by (simp add: poolAtRest_def d3_def d2_def d1_def discard_def release_def emit_def)
  moreover have "transactionsStarted d3 = Suc (transactionsStarted d)"
    by (simp add: d3_def d2_def d1_def discard_def release_def emit_def)
  moreover have "invocations (trace d3) = invocations (trace d) @ [(a, txnIds (transactionsStarted d))]"
    by (simp add: d3_def d2_def d1_def t_def discard_def release_def emit_def invocations_append)
  moreover have "executeFrom txnIds commit fn M a d =
               (if a < M then executeFrom txnIds commit fn M (Suc a) (emit [Backoff a] d3)
                else Some (Inl (RetriesExhausted k), d3))"
    using assms(3) by (subst executeFrom.simps) (simp add: acq run d3_def)
  ultimately show ?thesis by blast
next
  case (Cons s rest)
  define d1 where "d1 = d\<lparr>idle := rest\<rparr>"
  define t where "t = txnIds (transactionsStarted d)"
  define d2 where "d2 = emit [Abort t] (emit [StartTransaction s t, Invoke a t]
                 (d1\<lparr>transactionsStarted := transactionsStarted d1 + 1\<rparr>))"
  define d3 where "d3 = (if discardsSession k then discard s d2 else release s d2)"
  have acq: "acquire d = Some (s, d1)"
    using Cons by (simp add: acquire_def d1_def)
  have run: "runTransaction txnIds commit fn a s d1 = (Inl k, d2)"
    using assms(2) by (simp add: runTransaction_def d1_def d2_def t_def emit_def Let_def)
  have "poolAtRest d3"
    using assms(1) Cons
    by (auto simp add: poolAtRest_def d3_def d2_def d1_def discard_def release_def emit_def)
  moreover have "transactionsStarted d3 = Suc (transactionsStarted d)"
    by (simp add: d3_def d2_def d1_def discard_def release_def emit_def)
  moreover have "invocations (trace d3) = invocations (trace d) @ [(a, txnIds (transactionsStarted d))]"
    by (simp add: d3_def d2_def d1_def t_def discard_def release_def emit_def invocations_append)
  moreover have "executeFrom txnIds commit fn M a d =
               (if a < M then executeFrom txnIds commit fn M (Suc a) (emit [Backoff a] d3)
                else Some (Inl (RetriesExhausted k), d3))"
    using assms(3) by (subst executeFrom.simps) (simp add: acq run d3_def)
  ultimately show ?thesis by blast
qed

lemma successful_attempt:
  assumes "poolAtRest d"
    and "fn a (txnIds (transactionsStarted d)) = Inr v"
    and "commit (txnIds (transactionsStarted d)) = None"
  shows "\<exists>d3. poolAtRest d3
           \<and> transactionsStarted d3 = Suc (transactionsStarted d)
           \<and> invocations (trace d3) = invocations (trace d) @ [(a, txnIds (transactionsStarted d))]
           \<and> executeFrom txnIds commit fn M a d = Some (Inr v, d3)"
proof (cases "idle d")
  case Nil
  define d1 where "d1 = emit [StartSession (sessionsStarted d)]
                   (d\<lparr>live := live d + 1, sessionsStarted := sessionsStarted d + 1\<rparr>)"
  define t where "t = txnIds (transactionsStarted d)"
  define d2 where "d2 = emit [Commit t] (emit [StartTransaction (sessionsStarted d) t, Invoke a t]
                 (d1\<lparr>transactionsStarted := transactionsStarted d1 + 1\<rparr>))"
  define d3 where "d3 = release (sessionsStarted d) d2"
  have acq: "acquire d = Some (sessionsStarted d, d1)"
    using assms(1) Nil by (simp add: acquire_def poolAtRest_def d1_def)
  have run: "runTransaction txnIds commit fn a (sessionsStarted d) d1 = (Inr v, d2)"
    using assms(2,3) by (simp add: runTransaction_def d1_def d2_def t_def emit_def Let_def)
  have "poolAtRest d3"
    using assms(1) Nil
    by (simp add: poolAtRest_def d3_def d2_def d1_def release_def emit_def)
  moreover have "transactionsStarted d3 = Suc (transactionsStarted d)"
    by (simp add: d3_def d2_def d1_def release_def emit_def)
  moreover have "invocations (trace d3) = invocations (trace d) @ [(a, txnIds (transactionsStarted d))]"
    by (simp add: d3_def d2_def d1_def t_def release_def emit_def invocations_append)
  moreover have "executeFrom txnIds commit fn M a d = Some (Inr v, d3)"
    by (subst executeFrom.simps) (simp add: acq run d3_def)
  ultimately show ?thesis by blast
next
  case (Cons s rest)
  define d1 where "d1 = d\<lparr>idle := rest\<rparr>"
  define t where "t = txnIds (transactionsStarted d)"
  define d2 where "d2 = emit [Commit t] (emit [StartTransaction s t, Invoke a t]
                 (d1\<lparr>transactionsStarted := transactionsStarted d1 + 1\<rparr>))"
  define d3 where "d3 = release s d2"
  have acq: "acquire d = Some (s, d1)"
    using Cons by (simp add: acquire_def d1_def)
  have run: "runTransaction txnIds commit fn a s d1 = (Inr v, d2)"
    using assms(2,3) by (simp add: runTransaction_def d1_def d2_def t_def emit_def Let_def)
  have "poolAtRest d3"
    using assms(1) Cons
    by (auto simp add: poolAtRest_def d3_def d2_def d1_def release_def emit_def)
  moreover have "transactionsStarted d3 = Suc (transactionsStarted d)"
    by (simp add: d3_def d2_def d1_def release_def emit_def)
  moreover have "invocations (trace d3) = invocations (trace d) @ [(a, txnIds (transactionsStarted d))]"
    by (simp add: d3_def d2_def d1_def t_def release_def emit_def invocations_append)
  moreover have "executeFrom txnIds commit fn M a d = Some (Inr v, d3)"
    by (subst executeFrom.simps) (simp add: acq run d3_def)
  ultimately show ?thesis by blast
qed

lemma attemptsFrom_Suc:
  "attemptsFrom txnIds a c (Suc j) = (a, txnIds c) # attemptsFrom txnIds (Suc a) (Suc c) j"
  by (simp add: attemptsFrom_def upt_conv_Cons map_Suc_upt [symmetric] del: upt_Suc)

lemma attemptsFrom_snoc:
  "attemptsFrom txnIds a c (Suc j) = attemptsFrom txnIds a c j @ [(a + j, txnIds (c + j))]"
  by (simp add: attemptsFrom_def)

lemma length_attemptsFrom: "length (attemptsFrom txnIds a c j) = j"
  by (simp add: attemptsFrom_def)

lemma distinct_attemptsFrom:
  "inj_on txnIds {c..<c + j} \<Longrightarrow> distinct (map snd (attemptsFrom txnIds a c j))"
proof -
  assume i: "inj_on txnIds {c..<c + j}"
  have e: "map snd (attemptsFrom txnIds a c j) = map txnIds (map (\<lambda>i. c + i) [0..<j])"
    by (simp add: attemptsFrom_def comp_def)
  have m: "map (\<lambda>i. c + i) [0..<j] = [c..<c + j]"
    by (induction j) simp_all
  show ?thesis
    unfolding e m using i by (simp add: distinct_map)
qed

lemma retried_attempts:
  assumes "poolAtRest d"
    and "\<forall>i<j. \<exists>k. retryable k \<and> fn (a + i) (txnIds (transactionsStarted d + i)) = Inl k"
    and "a + j \<le> M"
  shows "\<exists>d'. poolAtRest d'
           \<and> transactionsStarted d' = transactionsStarted d + j
           \<and> invocations (trace d') =
               invocations (trace d) @ attemptsFrom txnIds a (transactionsStarted d) j
           \<and> executeFrom txnIds commit fn M a d = executeFrom txnIds commit fn M (a + j) d'"
  using assms
proof (induction j arbitrary: a d)
  case 0
  then show ?case by (auto simp: attemptsFrom_def)
next
  case (Suc j)
  from Suc.prems(2) obtain k where k: "retryable k"
    "fn a (txnIds (transactionsStarted d)) = Inl k"
    by force
  from failed_attempt [where d = d and fn = fn and a = a and txnIds = txnIds and k = k
        and commit = commit and M = M, OF Suc.prems(1) k(2) k(1)] Suc.prems(3) obtain d3 where
    d3: "poolAtRest d3" "transactionsStarted d3 = Suc (transactionsStarted d)"
      "invocations (trace d3) = invocations (trace d) @ [(a, txnIds (transactionsStarted d))]"
      "executeFrom txnIds commit fn M a d =
         executeFrom txnIds commit fn M (Suc a) (emit [Backoff a] d3)"
    by auto
  let ?d = "emit [Backoff a] d3"
  have p: "poolAtRest ?d" using d3(1) by (simp add: poolAtRest_emit)
  have ts: "transactionsStarted ?d = Suc (transactionsStarted d)"
    using d3(2) by (simp add: emit_def)
  have inv: "invocations (trace ?d) = invocations (trace d) @ [(a, txnIds (transactionsStarted d))]"
    using d3(3) by (simp add: emit_def invocations_append)
  have f: "\<forall>i<j. \<exists>k. retryable k \<and> fn (Suc a + i) (txnIds (transactionsStarted ?d + i)) = Inl k"
  proof (intro allI impI)
    fix i assume "i < j"
    then have "Suc i < Suc j" by simp
    with Suc.prems(2) have "\<exists>k. retryable k \<and> fn (a + Suc i) (txnIds (transactionsStarted d + Suc i)) = Inl k"
      by blast
    then show "\<exists>k. retryable k \<and> fn (Suc a + i) (txnIds (transactionsStarted ?d + i)) = Inl k"
      by (simp add: ts)
  qed
  have b: "Suc a + j \<le> M" using Suc.prems(3) by simp
  from Suc.IH [OF p f b] obtain d' where
    d': "poolAtRest d'" "transactionsStarted d' = transactionsStarted ?d + j"
      "invocations (trace d') = invocations (trace ?d) @ attemptsFrom txnIds (Suc a) (transactionsStarted ?d) j"
      "executeFrom txnIds commit fn M (Suc a) ?d = executeFrom txnIds commit fn M (Suc a + j) d'"
    by blast
  have "transactionsStarted d' = transactionsStarted d + Suc j"
    using d'(2) ts by simp
  moreover have "invocations (trace d') =
               invocations (trace d) @ attemptsFrom txnIds a (transactionsStarted d) (Suc j)"
    using d'(3) by (simp add: inv ts attemptsFrom_Suc)
  moreover have "executeFrom txnIds commit fn M a d = executeFrom txnIds commit fn M (a + Suc j) d'"
    using d3(4) d'(4) by simp
  ultimately show ?case using d'(1) by blast
qed

subsection \<open>The examples\<close>

lemma demo_chain: "pageChain demoCommunicator ''txn'' (service demoWorld) pageA [pageB, pageC, pageD]"
  by (simp add: demoCommunicator_def pageA_def pageB_def pageC_def pageD_def hasNextPageToken_def)

lemma demo_chain_B: "pageChain demoCommunicator ''txn'' (service demoWorld) pageB [pageC, pageD]"
  by (simp add: demoCommunicator_def pageB_def pageC_def pageD_def hasNextPageToken_def)

lemma demo_chain_C: "pageChain demoCommunicator ''txn'' (service demoWorld) pageC [pageD]"
  by (simp add: demoCommunicator_def pageC_def pageD_def hasNextPageToken_def)

lemma demo_chain_D: "pageChain demoCommunicator ''txn'' (service demoWorld) pageD []"
  by (simp add: pageD_def hasNextPageToken_def)

lemma demo_chain_E: "pageChain demoCommunicator ''txn'' (service demoWorld) pageE []"
  by (simp add: pageE_def hasNextPageToken_def)

lemma emptied_chain:
  "pageChain emptiedCommunicator ''txn'' (service demoWorld) (withEmptyValues pageC)
     (map withEmptyValues [pageD])"
  by (simp add: emptiedCommunicator_def demoCommunicator_def withEmptyValues_def
        pageC_def pageD_def hasNextPageToken_def)

lemma demo_values:
  "chainValues [pageA, pageB, pageC, pageD] =
     [\<lparr>IonBinary = Some (Buffer [1, 2])\<rparr>, \<lparr>IonBinary = Some (Str ''a'')\<rparr>,
      \<lparr>IonBinary = Some (Uint8Array [3])\<rparr>]"
  by (simp add: chainValues_def pageValues_def pageA_def pageB_def pageC_def pageD_def)

lemma demo_create:
  "create demoCommunicator Inr ''txn'' pageA busyWorld = Some (Inr createdResult, createdWorld)"
  by (simp add: create_def fetchResultPages_def collectPages_def fetchLoop.simps fetchPage_def
        demoCommunicator_def pageA_def pageB_def pageC_def pageD_def busyWorld_def
        createdResult_def createdWorld_def pushValues_def decodeValue_def handleBlob_def
        newArray_def)

lemma reader_chain:
  "pageChain demoCommunicator ''txn'' (service readerWorld) pageA [pageB, pageC, pageD]"
  by (simp add: demoCommunicator_def pageA_def pageB_def pageC_def pageD_def hasNextPageToken_def)





lemma demo_decodable:
  "\<forall>v \<in> set (chainValues [pageA, pageB, pageC, pageD]). decodable demoReader v"
  by (simp add: demo_values decodable_def decodeValue_def handleBlob_def demoReader_def)

lemma demo_decoded:
  "map (decoded demoReader) (chainValues [pageA, pageB, pageC, pageD]) = [[1, 2], [97], [3]]"
  by (simp add: demo_values decoded_def decodeValue_def handleBlob_def demoReader_def)

lemma demo_create_undecodable:
  "create demoCommunicator demoReader ''txn'' pageF readerWorld =
     Some (Inl (DecodeError ''invalid UTF-8''), readerWorld)"
  by (simp add: create_def fetchResultPages_def collectPages_def fetchLoop.simps pageF_def
        pushValues_def decodeValue_def handleBlob_def demoReader_def)

lemma demo_callerRuns:
  "callerRuns createdResult demoOps [0] createdWorld =
     ([0, 2, 3],
      \<lparr>service = (), calls = [(''txn'', ''t1''), (''txn'', ''t2''), (''txn'', ''t3'')],
       arrays = [[Str ''z'', Str ''c''], [Buffer [1, 2], Str ''a'', Uint8Array [3]],
                 [Blob [], Str ''a''], []]\<rparr>)"
  by (simp add: createdResult_def demoOps_def createdWorld_def getResultList_def newArray_def
        push_def pop_def replaceAt_def)

section \<open>The properties\<close>

text \<open>
  C1: for a result set of the pages \<open>p # ps\<close> whose values are encoded values that
  the decoder reads, \<open>Result.create\<close> returns a Result, and \<open>getResultList\<close> on it
  returns the values of all pages, in page order and in their order within each page,
  each decoded into a Reader.
\<close>

theorem create_concatenates_pages:
  assumes "pageChain communicator txnId (service w) p ps"
    and "\<forall>v \<in> set (chainValues (p # ps)). decodable makeReader v"
  shows "\<exists>r w'. create communicator makeReader txnId p w = Some (Inr r, w')
           \<and> (case getResultList r w' of (a, w'') \<Rightarrow>
                 arrays w'' ! a = map (decoded makeReader) (chainValues (p # ps)))"
proof -
  from fetchResultPages_values [OF assms(1), of makeReader] obtain w1 where
    "fetchResultPages communicator makeReader txnId p w =
       Some (forEachValue makeReader (chainValues (p # ps)) [], w1)"
    by blast
  then have f: "fetchResultPages communicator makeReader txnId p w =
          Some (Inr (map (decoded makeReader) (chainValues (p # ps))), w1)"
    by (simp add: forEachValue_ok [OF assms(2)])
  show ?thesis
    by (simp add: create_def f newArray_def getResultList_def nth_append)
qed

theorem create_concatenates_pages_witness:
  "pageChain demoCommunicator ''txn'' (service readerWorld) pageA [pageB, pageC, pageD]
   \<and> list_all (decodable demoReader) (chainValues [pageA, pageB, pageC, pageD])
   \<and> (\<exists>r w'. create demoCommunicator demoReader ''txn'' pageA readerWorld = Some (Inr r, w')
         \<and> (case getResultList r w' of (a, w'') \<Rightarrow>
               arrays w'' ! a = [[1, 2], [97], [3]]))"
proof -
  from create_concatenates_pages [OF reader_chain demo_decodable] show ?thesis
    using reader_chain demo_decodable unfolding demo_decoded by (simp add: list_all_iff)
qed




text \<open>
  C3: a page with zero values, anywhere in the result set, the first page included,
  adds nothing to the collected pages (no empty list among them) nor to the result, which
  is the one of the other pages; and when the page carries a token it is not the last
  page: the call that fetches with its token is made, and every page after it is
  collected.
\<close>

theorem empty_page_is_skipped:
  assumes "pageChain communicator txnId (service w) p ps"
    and "i < length (p # ps)"
    and "Values ((p # ps) ! i) = Some []"
  shows "\<exists>pva w'. collectPages communicator txnId p w = Some (Inr pva, w')
           \<and> [] \<notin> set pva
           \<and> pva = filter (\<lambda>vs. vs \<noteq> [])
                     (map pageValues (take i (p # ps) @ drop (Suc i) (p # ps)))
           \<and> fetchResultPages communicator makeReader txnId p w =
               Some (forEachPage makeReader pva [], w')
           \<and> calls w' = calls w @ tokenCalls txnId (butlast (p # ps))
           \<and> (hasNextPageToken ((p # ps) ! i) \<longrightarrow>
                 Suc i < length (p # ps)
               \<and> calls w' ! (length (calls w) + i) = (txnId, the (NextPageToken ((p # ps) ! i))))"
proof -
  let ?pva = "filter (\<lambda>vs. vs \<noteq> []) (map pageValues (p # ps))"
  from collectPages_chain [OF assms(1)] obtain w' where
    c: "collectPages communicator txnId p w = Some (Inr ?pva, w')"
    and k: "calls w' = calls w @ tokenCalls txnId (butlast (p # ps))"
    by blast
  have e: "pageValues ((p # ps) ! i) = []"
    using assms(3) by (simp add: pageValues_def)
  have s: "?pva = filter (\<lambda>vs. vs \<noteq> [])
                     (map pageValues (take i (p # ps) @ drop (Suc i) (p # ps)))"
    by (rule filter_skip_nth [where f = pageValues and xs = "p # ps" and i = i, OF assms(2) e])
  have n: "[] \<notin> set ?pva" by simp
  have f: "fetchResultPages communicator makeReader txnId p w =
               Some (forEachPage makeReader ?pva [], w')"
    by (simp add: fetchResultPages_def c)
  have t: "hasNextPageToken ((p # ps) ! i) \<longrightarrow>
                 Suc i < length (p # ps)
               \<and> calls w' ! (length (calls w) + i) = (txnId, the (NextPageToken ((p # ps) ! i)))"
  proof
    assume h: "hasNextPageToken ((p # ps) ! i)"
    have "i \<noteq> length ps"
    proof
      assume "i = length ps"
      then have "(p # ps) ! i = last (p # ps)"
        by (metis last_conv_nth length_Cons diff_Suc_1 list.distinct(1))
      with h pageChain_tokens [OF assms(1)] show False by simp
    qed
    with assms(2) have l: "i < length ps" by simp
    then have lb: "i < length (butlast (p # ps))"
      by (simp del: butlast.simps)
    then have b: "butlast (p # ps) ! i = (p # ps) ! i"
      by (rule nth_butlast)
    have "calls w' ! (length (calls w) + i) = tokenCalls txnId (butlast (p # ps)) ! i"
      by (simp add: k)
    also have "\<dots> = (txnId, the (NextPageToken ((p # ps) ! i)))"
      using lb b by (simp add: tokenCalls_def del: butlast.simps)
    finally show "Suc i < length (p # ps)
               \<and> calls w' ! (length (calls w) + i) = (txnId, the (NextPageToken ((p # ps) ! i)))"
      using l by simp
  qed
  from c n s f k t show ?thesis unfolding s [symmetric] by blast
qed

theorem empty_page_is_skipped_witness:
  "pageChain demoCommunicator ''txn'' (service demoWorld) pageB [pageC, pageD]
   \<and> (0::nat) < length [pageB, pageC, pageD]
   \<and> Values ([pageB, pageC, pageD] ! 0) = Some []
   \<and> hasNextPageToken ([pageB, pageC, pageD] ! 0)
   \<and> (\<exists>w'. collectPages demoCommunicator ''txn'' pageB demoWorld =
              Some (Inr [[\<lparr>IonBinary = Some (Uint8Array [3])\<rparr>]], w')
          \<and> fetchResultPages demoCommunicator Inr ''txn'' pageB demoWorld =
              Some (Inr [Uint8Array [3]], w')
          \<and> calls w' = [(''txn'', ''t2''), (''txn'', ''t3'')])"
proof -
  have h2: "(0::nat) < length [pageB, pageC, pageD]" by simp
  have h3: "Values ([pageB, pageC, pageD] ! 0) = Some []" by (simp add: pageB_def)
  have h4: "hasNextPageToken ([pageB, pageC, pageD] ! 0)"
    by (simp add: pageB_def hasNextPageToken_def)
  have v: "filter (\<lambda>vs. vs \<noteq> [])
             (map pageValues (take 0 [pageB, pageC, pageD] @ drop (Suc 0) [pageB, pageC, pageD])) =
           [[\<lparr>IonBinary = Some (Uint8Array [3])\<rparr>]]"
    by (simp add: pageValues_def pageC_def pageD_def)
  have c: "calls demoWorld @ tokenCalls ''txn'' (butlast [pageB, pageC, pageD]) =
             [(''txn'', ''t2''), (''txn'', ''t3'')]"
    by (simp add: tokenCalls_def demoWorld_def pageB_def pageC_def)
  have r: "forEachPage Inr [[\<lparr>IonBinary = Some (Uint8Array [3])\<rparr>]] [] = Inr [Uint8Array [3]]"
    by (simp add: decodeValue_def handleBlob_def)
  from empty_page_is_skipped [OF demo_chain_B h2 h3, of Inr] obtain pva w' where
    "collectPages demoCommunicator ''txn'' pageB demoWorld = Some (Inr pva, w')"
    "pva = [[\<lparr>IonBinary = Some (Uint8Array [3])\<rparr>]]"
    "fetchResultPages demoCommunicator Inr ''txn'' pageB demoWorld =
               Some (forEachPage Inr pva [], w')"
    "calls w' = [(''txn'', ''t2''), (''txn'', ''t3'')]"
    unfolding v c by blast
  then show ?thesis
    using demo_chain_B h2 h3 h4 r by auto
qed

text \<open>
  C4: after \<open>create\<close> has returned a Result, whatever the caller does with it, in
  any order and any number of times, the Communicator is not called and the state of the
  service is untouched, and the sequence that the Result holds stays the one it was
  created with.
\<close>

theorem result_needs_no_communicator:
  assumes "create communicator makeReader txnId p w0 = Some (Inr r, w)"
    and "\<forall>a \<in> set held. a < resultList r"
  shows "case callerRuns r ops held w of (held', w') \<Rightarrow>
           calls w' = calls w \<and> service w' = service w
         \<and> arrays w' ! resultList r = arrays w ! resultList r"
proof -
  have 1: "resultList r < length (arrays w)"
    by (rule create_allocates [OF assms(1)])
  have 2: "\<forall>a \<in> set held. a < length (arrays w) \<and> a \<noteq> resultList r"
    using assms(2) 1 by auto
  from callerRuns_frame [OF 1 2, of ops] show ?thesis
    by (auto split: prod.splits)
qed

theorem result_needs_no_communicator_witness:
  "create demoCommunicator Inr ''txn'' pageA busyWorld = Some (Inr createdResult, createdWorld)
   \<and> list_all (\<lambda>a. a < resultList createdResult) [0]
   \<and> (case callerRuns createdResult demoOps [0] createdWorld of (held', w') \<Rightarrow>
         calls w' = calls createdWorld \<and> service w' = service createdWorld
       \<and> arrays w' ! resultList createdResult = [Buffer [1, 2], Str ''a'', Uint8Array [3]])
   \<and> fst (callerRuns createdResult demoOps [0] createdWorld) = [0, 2, 3]"
proof -
  have h: "\<forall>a \<in> set [0]. a < resultList createdResult"
    by (simp add: createdResult_def)
  have a: "arrays createdWorld ! resultList createdResult =
             [Buffer [1, 2], Str ''a'', Uint8Array [3]]"
    by (simp add: createdWorld_def createdResult_def)
  from result_needs_no_communicator [OF demo_create h, of demoOps]
  have "case callerRuns createdResult demoOps [0] createdWorld of (held', w') \<Rightarrow>
         calls w' = calls createdWorld \<and> service w' = service createdWorld
       \<and> arrays w' ! resultList createdResult = [Buffer [1, 2], Str ''a'', Uint8Array [3]]"
    unfolding a .
  then show ?thesis
    using demo_create h by (simp add: demo_callerRuns)
qed

text \<open>
  C5: on a result set of N pages buffering returns, having called fetch-page once
  with the token of each page but the last, in page order: N - 1 calls; every page but
  the last carries a token, and the last page, where the loop stops, is the first
  without one.
\<close>

theorem one_fetchPage_call_per_following_page:
  assumes "pageChain communicator txnId (service w) p ps"
  shows "\<exists>r w'. fetchResultPages communicator makeReader txnId p w = Some (r, w')
           \<and> calls w' = calls w @ tokenCalls txnId (butlast (p # ps))
           \<and> length (calls w') = length (calls w) + (length (p # ps) - 1)
           \<and> (\<forall>q \<in> set (butlast (p # ps)). hasNextPageToken q)
           \<and> \<not> hasNextPageToken (last (p # ps))"
proof -
  from fetchResultPages_chain [OF assms, of makeReader] obtain w' where
    f: "fetchResultPages communicator makeReader txnId p w =
          Some (forEachPage makeReader (filter (\<lambda>vs. vs \<noteq> []) (map pageValues (p # ps))) [], w')"
    and k: "calls w' = calls w @ tokenCalls txnId (butlast (p # ps))"
    by blast
  have "length (calls w') = length (calls w) + (length (p # ps) - 1)"
    by (simp add: k tokenCalls_def)
  with f k pageChain_tokens [OF assms] show ?thesis by blast
qed

theorem one_fetchPage_call_per_following_page_witness:
  "pageChain demoCommunicator ''txn'' (service demoWorld) pageA [pageB, pageC, pageD]
   \<and> (\<exists>r w'. fetchResultPages demoCommunicator Inr ''txn'' pageA demoWorld = Some (r, w')
         \<and> calls w' = [(''txn'', ''t1''), (''txn'', ''t2''), (''txn'', ''t3'')])"
proof -
  have c: "calls demoWorld @ tokenCalls ''txn'' (butlast [pageA, pageB, pageC, pageD]) =
             [(''txn'', ''t1''), (''txn'', ''t2''), (''txn'', ''t3'')]"
    by (simp add: tokenCalls_def demoWorld_def pageA_def pageB_def pageC_def)
  from one_fetchPage_call_per_following_page [OF demo_chain, of Inr] show ?thesis
    using demo_chain unfolding c by blast
qed

text \<open>
  C6: on a result set whose values are encoded values that the decoder reads, buffering
  the ResultStream over the first page (\<open>Result.bufferResultStream\<close>) returns a Result
  whose sequence is the one of the Result that \<open>Result.create\<close> returns, the decoded
  values of all pages in order, and both make the same fetch-page calls.
\<close>

theorem stream_yields_buffered_sequence:
  assumes "pageChain communicator txnId (service w) p ps"
    and "\<forall>v \<in> set (chainValues (p # ps)). decodable makeReader v"
  shows "\<exists>r w1 r' w2.
             create communicator makeReader txnId p w = Some (Inr r, w1)
           \<and> bufferResultStream communicator makeReader (asStream txnId p) w = Some (r', w2)
           \<and> arrays w2 ! resultList r' = arrays w1 ! resultList r
           \<and> arrays w1 ! resultList r = map (decoded makeReader) (chainValues (p # ps))
           \<and> calls w2 = calls w1"
proof -
  from fetchResultPages_values [OF assms(1), of makeReader] obtain w0 where
    "fetchResultPages communicator makeReader txnId p w =
       Some (forEachValue makeReader (chainValues (p # ps)) [], w0)"
    and k: "calls w0 = calls w @ tokenCalls txnId (butlast (p # ps))"
    by blast
  then have f: "fetchResultPages communicator makeReader txnId p w =
          Some (Inr (map (decoded makeReader) (chainValues (p # ps))), w0)"
    by (simp add: forEachValue_ok [OF assms(2)])
  define w1 where "w1 = w0\<lparr>arrays := arrays w0 @ [map (decoded makeReader) (chainValues (p # ps))]\<rparr>"
  have c: "create communicator makeReader txnId p w = Some (Inr \<lparr>resultList = length (arrays w0)\<rparr>, w1)"
    by (simp add: create_def f newArray_def w1_def)
  have a: "arrays w1 ! length (arrays w0) = map (decoded makeReader) (chainValues (p # ps))"
    by (simp add: w1_def)
  have k1: "calls w1 = calls w @ tokenCalls txnId (butlast (p # ps))"
    using k by (simp add: w1_def)
  from bufferResultStream_chain [OF assms] obtain r' w2 where
    "bufferResultStream communicator makeReader (asStream txnId p) w = Some (r', w2)"
    "arrays w2 ! resultList r' = map (decoded makeReader) (chainValues (p # ps))"
    "calls w2 = calls w @ tokenCalls txnId (butlast (p # ps))"
    by blast
  with c a k1 show ?thesis by auto
qed

theorem stream_yields_buffered_sequence_witness:
  "pageChain demoCommunicator ''txn'' (service readerWorld) pageA [pageB, pageC, pageD]
   \<and> list_all (decodable demoReader) (chainValues [pageA, pageB, pageC, pageD])
   \<and> (\<exists>r w1 r' w2.
         create demoCommunicator demoReader ''txn'' pageA readerWorld = Some (Inr r, w1)
       \<and> bufferResultStream demoCommunicator demoReader (asStream ''txn'' pageA) readerWorld =
           Some (r', w2)
       \<and> arrays w2 ! resultList r' = [[1, 2], [97], [3]]
       \<and> arrays w1 ! resultList r = [[1, 2], [97], [3]])"
proof -
  from stream_yields_buffered_sequence [OF reader_chain demo_decodable] obtain r w1 r' w2 where
    "create demoCommunicator demoReader ''txn'' pageA readerWorld = Some (Inr r, w1)"
    "bufferResultStream demoCommunicator demoReader (asStream ''txn'' pageA) readerWorld =
       Some (r', w2)"
    "arrays w2 ! resultList r' = arrays w1 ! resultList r"
    "arrays w1 ! resultList r = [[1, 2], [97], [3]]"
    unfolding demo_decoded by blast
  then show ?thesis
    using reader_chain demo_decodable by (auto simp: list_all_iff)
qed

text \<open>
  C7: when the function fails with an OCC conflict on each of the attempts
  1 to N - 1 and succeeds, commit included, on attempt N, with N at most \<open>maxAttempts\<close>,
  \<open>execute\<close> returns the value of the function, the body is invoked exactly N times,
  and each invocation runs in the transaction that a start-transaction call of its own
  returned: N transactions are started, with distinct ids as far as the service assigns
  distinct ids.
\<close>

theorem execute_retries_occ_until_success:
  assumes "poolAtRest d"
    and "0 < N" and "N \<le> maxAttempts"
    and "\<forall>i<N - 1. fn (Suc i) (txnIds (transactionsStarted d + i)) = Inl OccConflict"
    and "fn N (txnIds (transactionsStarted d + (N - 1))) = Inr v"
    and "commit (txnIds (transactionsStarted d + (N - 1))) = None"
    and "inj_on txnIds {transactionsStarted d..<transactionsStarted d + N}"
  shows "\<exists>d'. execute txnIds commit fn maxAttempts d = Some (Inr v, d')
           \<and> invocations (trace d') =
               invocations (trace d) @ attemptsFrom txnIds 1 (transactionsStarted d) N
           \<and> length (invocations (trace d')) = length (invocations (trace d)) + N
           \<and> transactionsStarted d' = transactionsStarted d + N
           \<and> distinct (map snd (attemptsFrom txnIds 1 (transactionsStarted d) N))"
proof -
  obtain j where N: "N = Suc j" using assms(2) by (cases N) simp_all
  have f: "\<forall>i<j. \<exists>k. retryable k \<and> fn (1 + i) (txnIds (transactionsStarted d + i)) = Inl k"
    using assms(4) by (auto simp: N)
  have b: "1 + j \<le> maxAttempts" using assms(3) by (simp add: N)
  from retried_attempts [OF assms(1) f b, of commit] obtain d1 where
    d1: "poolAtRest d1" "transactionsStarted d1 = transactionsStarted d + j"
      "invocations (trace d1) = invocations (trace d) @ attemptsFrom txnIds 1 (transactionsStarted d) j"
      "executeFrom txnIds commit fn maxAttempts 1 d = executeFrom txnIds commit fn maxAttempts (1 + j) d1"
    by blast
  have s: "fn (1 + j) (txnIds (transactionsStarted d1)) = Inr v"
    and c: "commit (txnIds (transactionsStarted d1)) = None"
    using assms(5,6) by (simp_all add: N d1(2))
  from successful_attempt [where d = d1 and fn = fn and a = "1 + j" and txnIds = txnIds
      and v = v and commit = commit and M = maxAttempts, OF d1(1) s c]
  obtain d' where
    d': "transactionsStarted d' = Suc (transactionsStarted d1)"
      "invocations (trace d') = invocations (trace d1) @ [(1 + j, txnIds (transactionsStarted d1))]"
      "executeFrom txnIds commit fn maxAttempts (1 + j) d1 = Some (Inr v, d')"
    by blast
  have i: "invocations (trace d') =
               invocations (trace d) @ attemptsFrom txnIds 1 (transactionsStarted d) N"
    by (simp add: d'(2) d1(2,3) N attemptsFrom_snoc)
  have "execute txnIds commit fn maxAttempts d = Some (Inr v, d')"
    using d1(4) d'(3) by (simp add: execute_def)
  moreover have "length (invocations (trace d')) = length (invocations (trace d)) + N"
    by (simp add: i length_attemptsFrom)
  moreover have "transactionsStarted d' = transactionsStarted d + N"
    by (simp add: d'(1) d1(2) N)
  moreover have "distinct (map snd (attemptsFrom txnIds 1 (transactionsStarted d) N))"
    by (rule distinct_attemptsFrom [OF assms(7)])
  ultimately show ?thesis using i by blast
qed

theorem execute_retries_occ_until_success_witness:
  "poolAtRest demoDriver \<and> (0::nat) < 3 \<and> (3::nat) \<le> 5
   \<and> occTwice 1 (demoTxnIds (transactionsStarted demoDriver + 0)) = Inl OccConflict
   \<and> occTwice 2 (demoTxnIds (transactionsStarted demoDriver + 1)) = Inl OccConflict
   \<and> occTwice 3 (demoTxnIds (transactionsStarted demoDriver + (3 - 1))) = Inr 42
   \<and> demoCommit (demoTxnIds (transactionsStarted demoDriver + (3 - 1))) = None
   \<and> inj_on demoTxnIds {transactionsStarted demoDriver..<transactionsStarted demoDriver + 3}
   \<and> (\<exists>d'. execute demoTxnIds demoCommit occTwice 5 demoDriver = Some (Inr 42, d')
         \<and> invocations (trace d') = [(1, ''t''), (2, ''tt''), (3, ''ttt'')]
         \<and> transactionsStarted d' = 3)"
proof -
  have h1: "poolAtRest demoDriver" by (simp add: poolAtRest_def demoDriver_def)
  have h4: "\<forall>i<3 - 1. occTwice (Suc i) (demoTxnIds (transactionsStarted demoDriver + i)) = Inl OccConflict"
    by (simp add: occTwice_def)
  have h5: "occTwice 3 (demoTxnIds (transactionsStarted demoDriver + (3 - 1))) = Inr 42"
    by (simp add: occTwice_def)
  have h6: "demoCommit (demoTxnIds (transactionsStarted demoDriver + (3 - 1))) = None"
    by (simp add: demoCommit_def)
  have h7: "inj_on demoTxnIds {transactionsStarted demoDriver..<transactionsStarted demoDriver + 3}"
    by (simp add: inj_on_def demoTxnIds_def)
  have a: "attemptsFrom demoTxnIds (Suc 0) 0 3 = [(Suc 0, ''t''), (2, ''tt''), (3, ''ttt'')]"
    by (simp add: attemptsFrom_def demoTxnIds_def upt_conv_Cons)
  have t: "transactionsStarted demoDriver = 0" "trace demoDriver = []"
    by (simp_all add: demoDriver_def)
  have h2: "(0::nat) < 3" and h3: "(3::nat) \<le> 5" by simp_all
  from execute_retries_occ_until_success [where d = demoDriver and N = 3 and maxAttempts = 5
      and fn = occTwice and txnIds = demoTxnIds and v = 42 and commit = demoCommit,
      OF h1 h2 h3 h4 h5 h6 h7]
  have "\<exists>d'. execute demoTxnIds demoCommit occTwice 5 demoDriver = Some (Inr 42, d')
         \<and> invocations (trace d') = [(1, ''t''), (2, ''tt''), (3, ''ttt'')]
         \<and> transactionsStarted d' = 3"
    by (auto simp add: t a)
  with h1 h5 h6 h7 show ?thesis by (simp add: occTwice_def)
qed

text \<open>
  C8: when the function fails with a retryable kind on every attempt and
  \<open>maxAttempts\<close> is M, at least 1, \<open>execute\<close> fails after exactly M invocations with
  the retries-exhausted error that wraps the kind of the last failure.
\<close>

theorem execute_exhausts_retries:
  assumes "poolAtRest d"
    and "0 < M"
    and "\<forall>i<M. \<exists>k. retryable k \<and> fn (Suc i) (txnIds (transactionsStarted d + i)) = Inl k"
  shows "\<exists>d' k. execute txnIds commit fn M d = Some (Inl (RetriesExhausted k), d')
           \<and> fn M (txnIds (transactionsStarted d + (M - 1))) = Inl k
           \<and> invocations (trace d') =
               invocations (trace d) @ attemptsFrom txnIds 1 (transactionsStarted d) M
           \<and> length (invocations (trace d')) = length (invocations (trace d)) + M"
proof -
  obtain j where M: "M = Suc j" using assms(2) by (cases M) simp_all
  have f: "\<forall>i<j. \<exists>k. retryable k \<and> fn (1 + i) (txnIds (transactionsStarted d + i)) = Inl k"
    using assms(3) by (auto simp: M)
  have b: "1 + j \<le> M" by (simp add: M)
  from retried_attempts [OF assms(1) f b, of commit] obtain d1 where
    d1: "poolAtRest d1" "transactionsStarted d1 = transactionsStarted d + j"
      "invocations (trace d1) = invocations (trace d) @ attemptsFrom txnIds 1 (transactionsStarted d) j"
      "executeFrom txnIds commit fn M 1 d = executeFrom txnIds commit fn M (1 + j) d1"
    by blast
  from assms(3) obtain k where k: "retryable k"
    "fn (1 + j) (txnIds (transactionsStarted d1)) = Inl k"
    by (auto simp: M d1(2))
  from failed_attempt [where d = d1 and fn = fn and a = "1 + j" and txnIds = txnIds and k = k
        and commit = commit and M = M, OF d1(1) k(2) k(1)]
  obtain d' where
    d': "invocations (trace d') = invocations (trace d1) @ [(1 + j, txnIds (transactionsStarted d1))]"
      "executeFrom txnIds commit fn M (1 + j) d1 = Some (Inl (RetriesExhausted k), d')"
    by (auto simp: M)
  have i: "invocations (trace d') =
               invocations (trace d) @ attemptsFrom txnIds 1 (transactionsStarted d) M"
    by (simp add: d'(1) d1(2,3) M attemptsFrom_snoc)
  have "execute txnIds commit fn M d = Some (Inl (RetriesExhausted k), d')"
    using d1(4) d'(2) by (simp add: execute_def)
  moreover have "fn M (txnIds (transactionsStarted d + (M - 1))) = Inl k"
    using k(2) by (simp add: M d1(2))
  moreover have "length (invocations (trace d')) = length (invocations (trace d)) + M"
    by (simp add: i length_attemptsFrom)
  ultimately show ?thesis using i by blast
qed

theorem execute_exhausts_retries_witness:
  "poolAtRest demoDriver \<and> (0::nat) < 3
   \<and> retryable InvalidSession
   \<and> alwaysInvalidSession 1 (demoTxnIds (transactionsStarted demoDriver + 0)) = Inl InvalidSession
   \<and> alwaysInvalidSession 2 (demoTxnIds (transactionsStarted demoDriver + 1)) = Inl InvalidSession
   \<and> alwaysInvalidSession 3 (demoTxnIds (transactionsStarted demoDriver + 2)) = Inl InvalidSession
   \<and> (\<exists>d'. execute demoTxnIds demoCommit alwaysInvalidSession 3 demoDriver =
               Some (Inl (RetriesExhausted InvalidSession), d')
         \<and> invocations (trace d') = [(1, ''t''), (2, ''tt''), (3, ''ttt'')])"
proof -
  have h1: "poolAtRest demoDriver" by (simp add: poolAtRest_def demoDriver_def)
  have h3: "\<forall>i<3. \<exists>k. retryable k
          \<and> alwaysInvalidSession (Suc i) (demoTxnIds (transactionsStarted demoDriver + i)) = Inl k"
    by (simp add: alwaysInvalidSession_def)
  have a: "attemptsFrom demoTxnIds (Suc 0) 0 3 = [(Suc 0, ''t''), (2, ''tt''), (3, ''ttt'')]"
    by (simp add: attemptsFrom_def demoTxnIds_def upt_conv_Cons)
  have t: "transactionsStarted demoDriver = 0" "trace demoDriver = []"
    by (simp_all add: demoDriver_def)
  have h2: "(0::nat) < 3" by simp
  from execute_exhausts_retries [where d = demoDriver and M = 3 and fn = alwaysInvalidSession
      and txnIds = demoTxnIds and commit = demoCommit, OF h1 h2 h3]
  have "\<exists>d'. execute demoTxnIds demoCommit alwaysInvalidSession 3 demoDriver =
               Some (Inl (RetriesExhausted InvalidSession), d')
         \<and> invocations (trace d') = [(1, ''t''), (2, ''tt''), (3, ''ttt'')]"
    by (auto simp add: t a alwaysInvalidSession_def)
  with h1 show ?thesis by (simp add: alwaysInvalidSession_def)
qed

text \<open>
  C9: every call of \<open>getResultList\<close> returns a new array, which the caller did not
  hold, with the elements of the Result's own array; whatever the caller does to the
  arrays it holds, the Result's array keeps its content, and a later \<open>getResultList\<close>
  returns the original sequence again.
\<close>

theorem getResultList_returns_fresh_copy:
  assumes "resultList r < length (arrays w)"
    and "\<forall>a \<in> set held. a < length (arrays w) \<and> a \<noteq> resultList r"
  shows "case callerRuns r ops held w of (held', w') \<Rightarrow>
           arrays w' ! resultList r = arrays w ! resultList r
         \<and> (case getResultList r w' of (a, w'') \<Rightarrow>
               a \<notin> set held' \<and> a \<noteq> resultList r
             \<and> arrays w'' ! a = arrays w ! resultList r
             \<and> arrays w'' ! resultList r = arrays w ! resultList r)"
proof -
  obtain held' w' where c: "callerRuns r ops held w = (held', w')"
    by (cases "callerRuns r ops held w")
  from callerRuns_frame [OF assms, of ops] have
    l: "length (arrays w) \<le> length (arrays w')"
    and s: "arrays w' ! resultList r = arrays w ! resultList r"
    and h: "\<forall>a \<in> set held'. a < length (arrays w') \<and> a \<noteq> resultList r"
    by (simp_all add: c)
  have i: "resultList r < length (arrays w')"
    using assms(1) l by simp
  have f: "length (arrays w') \<notin> set held'"
    using h by auto
  show ?thesis
    using s i f by (simp add: c getResultList_def newArray_def nth_append)
qed

theorem getResultList_returns_fresh_copy_witness:
  "resultList createdResult < length (arrays createdWorld)
   \<and> list_all (\<lambda>a. a < length (arrays createdWorld) \<and> a \<noteq> resultList createdResult) [0]
   \<and> (case callerRuns createdResult demoOps [0] createdWorld of (held', w') \<Rightarrow>
         held' = [0, 2, 3]
       \<and> arrays w' ! 2 = [Blob [], Str ''a''] \<and> arrays w' ! 3 = []
       \<and> arrays w' ! resultList createdResult = [Buffer [1, 2], Str ''a'', Uint8Array [3]]
       \<and> (case getResultList createdResult w' of (a, w'') \<Rightarrow>
             a = 4 \<and> a \<notin> set held'
           \<and> arrays w'' ! a = [Buffer [1, 2], Str ''a'', Uint8Array [3]]))"
proof -
  have h1: "resultList createdResult < length (arrays createdWorld)"
    by (simp add: createdWorld_def createdResult_def)
  have h2: "\<forall>a \<in> set [0]. a < length (arrays createdWorld) \<and> a \<noteq> resultList createdResult"
    by (simp add: createdWorld_def createdResult_def)
  have a: "arrays createdWorld ! resultList createdResult =
             [Buffer [1, 2], Str ''a'', Uint8Array [3]]"
    by (simp add: createdWorld_def createdResult_def)
  from getResultList_returns_fresh_copy [OF h1 h2, of demoOps]
  have "case callerRuns createdResult demoOps [0] createdWorld of (held', w') \<Rightarrow>
           arrays w' ! resultList createdResult = [Buffer [1, 2], Str ''a'', Uint8Array [3]]
         \<and> (case getResultList createdResult w' of (a, w'') \<Rightarrow>
               a \<notin> set held' \<and> a \<noteq> resultList createdResult
             \<and> arrays w'' ! a = [Buffer [1, 2], Str ''a'', Uint8Array [3]]
             \<and> arrays w'' ! resultList createdResult = [Buffer [1, 2], Str ''a'', Uint8Array [3]])"
    unfolding a .
  then show ?thesis
    using h1 h2 unfolding demo_callerRuns
    by (simp add: getResultList_def newArray_def createdResult_def)
qed

text \<open>
  C10: on a result set where pages may lack the \<open>Values\<close> field, collecting the
  pages does not fail, and buffering gives what it gives on the same result set with
  every absent \<open>Values\<close> replaced by the empty list: the same collected pages, the same
  result and the same fetch-page calls.
\<close>

theorem absent_values_like_empty:
  assumes "pageChain communicator txnId (service w) p ps"
    and "pageChain communicator' txnId (service v) (withEmptyValues p) (map withEmptyValues ps)"
  shows "\<exists>pva w' v'.
             collectPages communicator txnId p w = Some (Inr pva, w')
           \<and> collectPages communicator' txnId (withEmptyValues p) v = Some (Inr pva, v')
           \<and> pva = filter (\<lambda>vs. vs \<noteq> []) (map pageValues (p # ps))
           \<and> fetchResultPages communicator makeReader txnId p w =
               Some (forEachPage makeReader pva [], w')
           \<and> fetchResultPages communicator' makeReader txnId (withEmptyValues p) v =
               Some (forEachPage makeReader pva [], v')
           \<and> calls w' = calls w @ tokenCalls txnId (butlast (p # ps))
           \<and> calls v' = calls v @ tokenCalls txnId (butlast (p # ps))"
proof -
  let ?pva = "filter (\<lambda>vs. vs \<noteq> []) (map pageValues (p # ps))"
  from collectPages_chain [OF assms(1)] obtain w' where
    c: "collectPages communicator txnId p w = Some (Inr ?pva, w')"
    and k: "calls w' = calls w @ tokenCalls txnId (butlast (p # ps))"
    by blast
  have m: "map pageValues (withEmptyValues p # map withEmptyValues ps) = map pageValues (p # ps)"
    by (simp add: pageValues_withEmptyValues comp_def)
  have b: "tokenCalls txnId (butlast (withEmptyValues p # map withEmptyValues ps)) =
           tokenCalls txnId (butlast (p # ps))"
    using tokenCalls_withEmptyValues [of txnId "butlast (p # ps)"]
    by (simp add: map_butlast del: butlast.simps)
  from collectPages_chain [OF assms(2)] obtain v' where
    c': "collectPages communicator' txnId (withEmptyValues p) v = Some (Inr ?pva, v')"
    and k': "calls v' = calls v @ tokenCalls txnId (butlast (p # ps))"
    unfolding m b by blast
  have "fetchResultPages communicator makeReader txnId p w =
               Some (forEachPage makeReader ?pva [], w')"
    by (simp add: fetchResultPages_def c)
  moreover have "fetchResultPages communicator' makeReader txnId (withEmptyValues p) v =
               Some (forEachPage makeReader ?pva [], v')"
    by (simp add: fetchResultPages_def c')
  ultimately show ?thesis using c c' k k' by blast
qed

theorem absent_values_like_empty_witness:
  "pageChain demoCommunicator ''txn'' (service demoWorld) pageC [pageD]
   \<and> pageChain emptiedCommunicator ''txn'' (service demoWorld) (withEmptyValues pageC)
       (map withEmptyValues [pageD])
   \<and> Values pageC = None \<and> Values (withEmptyValues pageC) = Some []
   \<and> (\<exists>w' v'. fetchResultPages demoCommunicator Inr ''txn'' pageC demoWorld =
                 Some (Inr [Uint8Array [3]], w')
             \<and> fetchResultPages emptiedCommunicator Inr ''txn'' (withEmptyValues pageC) demoWorld =
                 Some (Inr [Uint8Array [3]], v')
             \<and> calls w' = [(''txn'', ''t3'')] \<and> calls v' = [(''txn'', ''t3'')])"
proof -
  have v: "filter (\<lambda>vs. vs \<noteq> []) (map pageValues [pageC, pageD]) =
           [[\<lparr>IonBinary = Some (Uint8Array [3])\<rparr>]]"
    by (simp add: pageValues_def pageC_def pageD_def)
  have c: "calls demoWorld @ tokenCalls ''txn'' (butlast [pageC, pageD]) = [(''txn'', ''t3'')]"
    by (simp add: tokenCalls_def demoWorld_def pageC_def)
  have r: "forEachPage Inr [[\<lparr>IonBinary = Some (Uint8Array [3])\<rparr>]] [] = Inr [Uint8Array [3]]"
    by (simp add: decodeValue_def handleBlob_def)
  have e: "Values pageC = None" "Values (withEmptyValues pageC) = Some []"
    by (simp_all add: pageC_def withEmptyValues_def)
  from absent_values_like_empty [OF demo_chain_C emptied_chain, of Inr] obtain w' v' where
    "fetchResultPages demoCommunicator Inr ''txn'' pageC demoWorld =
       Some (forEachPage Inr [[\<lparr>IonBinary = Some (Uint8Array [3])\<rparr>]] [], w')"
    "fetchResultPages emptiedCommunicator Inr ''txn'' (withEmptyValues pageC) demoWorld =
       Some (forEachPage Inr [[\<lparr>IonBinary = Some (Uint8Array [3])\<rparr>]] [], v')"
    "calls w' = [(''txn'', ''t3'')]" "calls v' = [(''txn'', ''t3'')]"
    unfolding v c by blast
  then show ?thesis
    using demo_chain_C emptied_chain e unfolding r by blast
qed

end
